theory Spec2Isabelle
  imports Complex_Main "HOL-Library.Multiset"
begin

section \<open>Numeric arrays\<close>

text \<open>
  The two scripts compute on one-dimensional numpy arrays of dtype float32.  An array is
  modelled as a list and a float as a real number: every arithmetic operation is the exact
  one, rounding is not modelled.  A statement of the specification that holds "within
  floating tolerance" is therefore read as the exact equation over the reals.
\<close>

type_synonym vec = "real list"

text \<open>\<^verbatim>\<open>np.linalg.norm(v)\<close> of a one-dimensional array: the Euclidean norm.\<close>

definition linalg_norm :: "vec \<Rightarrow> real" where
  "linalg_norm v = sqrt (sum_list (map (\<lambda>x. x * x) v))"

text \<open>\<^verbatim>\<open>v / c\<close>, \<^verbatim>\<open>c * v\<close> and \<^verbatim>\<open>u + v\<close> on arrays (of equal shape).\<close>

definition vdiv :: "vec \<Rightarrow> real \<Rightarrow> vec" where
  "vdiv v c = map (\<lambda>x. x / c) v"

definition smul :: "real \<Rightarrow> vec \<Rightarrow> vec" where
  "smul c v = map (\<lambda>x. c * x) v"

definition vadd :: "vec \<Rightarrow> vec \<Rightarrow> vec" where
  "vadd u v = map2 (+) u v"

text \<open>\<^verbatim>\<open>v[i] += a\<close>.\<close>

definition add_at :: "vec \<Rightarrow> nat \<Rightarrow> real \<Rightarrow> vec" where
  "add_at v i a = v[i := v ! i + a]"

text \<open>The dot product of two arrays, and the sum of squares of one.\<close>

definition dot :: "vec \<Rightarrow> vec \<Rightarrow> real" where
  "dot u v = sum_list (map2 (*) u v)"

definition sumsq :: "vec \<Rightarrow> real" where
  "sumsq v = sum_list (map (\<lambda>x. x * x) v)"

section \<open>Key profiles and their rotation\<close>

text \<open>
  \<^verbatim>\<open>maj=np.array([6.35,...]); maj=maj/np.linalg.norm(maj)\<close> and the same for
  \<^verbatim>\<open>minr\<close> (make_key_tflite.py, lines 2 and 3).
\<close>

definition maj_lit :: vec where
  "maj_lit = [6.35, 2.23, 3.48, 2.33, 4.38, 4.09, 2.52, 5.19, 2.39, 3.66, 2.29, 2.88]"

definition min_lit :: vec where
  "min_lit = [6.33, 2.68, 3.52, 5.38, 2.60, 3.53, 2.54, 4.75, 3.98, 2.69, 3.34, 3.17]"

definition maj :: vec where
  "maj = vdiv maj_lit (linalg_norm maj_lit)"

definition minr :: vec where
  "minr = vdiv min_lit (linalg_norm min_lit)"

text \<open>
  \<^verbatim>\<open>def rot(v,r): r%=12; return np.concatenate([v[r:],v[:r]])\<close>, the same text in both
  scripts.  Python's \<^verbatim>\<open>%\<close> with a positive modulus is the floored remainder, which is
  \<open>mod\<close> on \<open>int\<close>.
\<close>

definition rot :: "'a list \<Rightarrow> int \<Rightarrow> 'a list" where
  "rot v r = (let r' = nat (r mod 12) in drop r' v @ take r' v)"

text \<open>
  The template of key class \<open>i\<close> as both scripts compute it in line:
  \<^verbatim>\<open>r=i//2; tm=maj if (i%2)==0 else minr; ... rot(tm,r)\<close>.
\<close>

definition rotatedProfile :: "int \<Rightarrow> vec" where
  "rotatedProfile i = (let r = i div 2; tm = (if i mod 2 = 0 then maj else minr) in rot tm r)"

subsection \<open>The specification's reading of the rotated profile\<close>

text \<open>
  The specification's words: a mode, \<open>baseProfile(mode)\<close>, \<open>RotateLeft(v, r)\<close>, which
  "moves the first r elements to the end (r taken mod 12)", and
  \<open>rotatedProfile(keyClass) = RotateLeft(baseProfile(mode), tonic)\<close> with
  \<open>tonic = keyClass div 2\<close> and the mode from the parity.  \<open>rotate1\<close> of the list library
  moves the first element to the end.
\<close>

datatype mode = Major | Minor

definition baseProfile :: "mode \<Rightarrow> vec" where
  "baseProfile m = (case m of Major \<Rightarrow> maj | Minor \<Rightarrow> minr)"

definition RotateLeft :: "'a list \<Rightarrow> nat \<Rightarrow> 'a list" where
  "RotateLeft v r = (rotate1 ^^ (r mod 12)) v"

definition rotatedProfile_spec :: "nat \<Rightarrow> vec" where
  "rotatedProfile_spec keyClass =
     RotateLeft (baseProfile (if even keyClass then Major else Minor)) (keyClass div 2)"

section \<open>The analytic classifier (make\_key\_tflite.py)\<close>

text \<open>
  A matrix is the list of its rows.  \<^verbatim>\<open>W[:,i]=v\<close> stores \<open>v\<close> as column \<open>i\<close>; the
  shapes are fixed in the script (\<open>W\<close> is 12 by 24 and \<open>rot\<close> returns as many entries as it
  is given, see \<open>length_rotatedProfile\<close>).
\<close>

type_synonym matrix = "real list list"

definition zeros2 :: "nat \<Rightarrow> nat \<Rightarrow> matrix" where
  "zeros2 m n = replicate m (replicate n 0)"

definition col :: "matrix \<Rightarrow> nat \<Rightarrow> vec" where
  "col W i = map (\<lambda>row. row ! i) W"

definition set_col :: "matrix \<Rightarrow> nat \<Rightarrow> vec \<Rightarrow> matrix" where
  "set_col W i v = map2 (\<lambda>row x. row[i := x]) W v"

text \<open>
  \<^verbatim>\<open>W=np.zeros((12,24)); b=np.zeros((24,))\<close> and the loop
  \<^verbatim>\<open>for i in range(24): r=i//2; tm=...; W[:,i]=rot(tm,r)\<close>.
\<close>

definition build_step :: "nat \<Rightarrow> matrix \<Rightarrow> matrix" where
  "build_step i W = set_col W i (rotatedProfile (int i))"

definition build_W :: matrix where
  "build_W = fold build_step [0..<24] (zeros2 12 24)"

definition build_b :: vec where
  "build_b = replicate 24 0"

text \<open>
  \<^verbatim>\<open>model_fn(x) = tf.linalg.matmul(x,Wc)+bc\<close> with the input signature of shape
  \<open>[1,12]\<close>: any other shape is refused (\<open>None\<close>).  The bias is added to every row of the
  product.
\<close>

definition matmul :: "matrix \<Rightarrow> matrix \<Rightarrow> matrix" where
  "matmul A B =
     map (\<lambda>row. map (\<lambda>j. dot row (col B j)) [0..<(case B of [] \<Rightarrow> 0 | r # _ \<Rightarrow> length r)]) A"

definition model_fn :: "matrix \<Rightarrow> matrix option" where
  "model_fn x =
     (if length x = 1 \<and> list_all (\<lambda>row. length row = 12) x
      then Some (map (\<lambda>row. vadd row build_b) (matmul x build_W))
      else None)"

section \<open>The random sources\<close>

text \<open>
  train_key_tflite.py draws from two global generators: Python's \<^verbatim>\<open>random\<close> module and
  numpy's \<^verbatim>\<open>np.random\<close>.  Their algorithm is outside the repository.  The state of a
  generator is modelled as the sequence of the raw outcomes of its future calls, one
  natural number for each call; a library function reduces the raw outcome to its
  documented range, so that every value the library can return is returned for some
  state, and no other:
  \<^item> \<^verbatim>\<open>random.random()\<close> and an entry of \<^verbatim>\<open>np.random.rand(n)\<close> are \<open>k / 2^53\<close> with
    \<open>0 \<le> k < 2^53\<close>, a float in \<open>[0, 1)\<close>;
  \<^item> \<^verbatim>\<open>random.choice(seq)\<close> is \<^verbatim>\<open>seq[_randbelow(len(seq))]\<close>;
  \<^item> \<^verbatim>\<open>random.uniform(a, b)\<close> is \<^verbatim>\<open>a + (b-a) * random()\<close>;
  \<^item> \<^verbatim>\<open>random.randint(a, b)\<close> is \<^verbatim>\<open>a + _randbelow(b - a + 1)\<close>;
  \<^item> \<^verbatim>\<open>np.random.shuffle(x)\<close> on a one-dimensional array is the loop
    \<^verbatim>\<open>for i in reversed(range(1, n)): j = an integer in [0, i]; x[i], x[j] = x[j], x[i]\<close>.
\<close>

record rng =
  py_tape :: "nat \<Rightarrow> nat"
  np_tape :: "nat \<Rightarrow> nat"

definition py_draw :: "rng \<Rightarrow> nat \<times> rng" where
  "py_draw g = (py_tape g 0, g\<lparr>py_tape := \<lambda>n. py_tape g (Suc n)\<rparr>)"

definition np_draw :: "rng \<Rightarrow> nat \<times> rng" where
  "np_draw g = (np_tape g 0, g\<lparr>np_tape := \<lambda>n. np_tape g (Suc n)\<rparr>)"

definition unit_float :: "nat \<Rightarrow> real" where
  "unit_float k = real (k mod 2 ^ 53) / 2 ^ 53"

definition random_random :: "rng \<Rightarrow> real \<times> rng" where
  "random_random g = (case py_draw g of (k, g') \<Rightarrow> (unit_float k, g'))"

definition randbelow :: "nat \<Rightarrow> rng \<Rightarrow> nat \<times> rng" where
  "randbelow n g = (case py_draw g of (k, g') \<Rightarrow> (k mod n, g'))"

text \<open>Every call of \<^verbatim>\<open>random.choice\<close> in the script is on a non-empty literal list.\<close>

definition random_choice :: "'a list \<Rightarrow> rng \<Rightarrow> 'a \<times> rng" where
  "random_choice xs g = (case randbelow (length xs) g of (k, g') \<Rightarrow> (xs ! k, g'))"

definition random_uniform :: "real \<Rightarrow> real \<Rightarrow> rng \<Rightarrow> real \<times> rng" where
  "random_uniform a b g = (case random_random g of (u, g') \<Rightarrow> (a + (b - a) * u, g'))"

definition random_randint :: "int \<Rightarrow> int \<Rightarrow> rng \<Rightarrow> int \<times> rng" where
  "random_randint a b g = (case randbelow (nat (b - a + 1)) g of (k, g') \<Rightarrow> (a + int k, g'))"

fun np_random_rand :: "nat \<Rightarrow> rng \<Rightarrow> vec \<times> rng" where
  "np_random_rand 0 g = ([], g)"
| "np_random_rand (Suc n) g =
     (case np_draw g of (k, g') \<Rightarrow>
        (case np_random_rand n g' of (xs, g'') \<Rightarrow> (unit_float k # xs, g'')))"

fun shuffle_loop :: "nat \<Rightarrow> 'a list \<Rightarrow> rng \<Rightarrow> 'a list \<times> rng" where
  "shuffle_loop 0 xs g = (xs, g)"
| "shuffle_loop (Suc i) xs g =
     (case np_draw g of (k, g') \<Rightarrow>
        (let j = k mod (Suc (Suc i)) in
         shuffle_loop i (xs[Suc i := xs ! j, j := xs ! Suc i]) g'))"

definition np_shuffle :: "'a list \<Rightarrow> rng \<Rightarrow> 'a list \<times> rng" where
  "np_shuffle xs g = shuffle_loop (length xs - 1) xs g"

section \<open>The sample synthesizer (train\_key\_tflite.py)\<close>

text \<open>The profiles of the training script, from the same literals (lines 4 and 5).\<close>

definition maj_t :: vec where
  "maj_t = vdiv maj_lit (linalg_norm maj_lit)"

definition min_t :: vec where
  "min_t = vdiv min_lit (linalg_norm min_lit)"

definition maj_degrees :: "int list list" where
  "maj_degrees = [[0,4,7],[2,5,9],[4,7,11],[5,9,0],[7,11,2],[9,0,4],[11,2,5]]"

definition min_degrees :: "int list list" where
  "min_degrees = [[0,3,7],[2,5,8],[3,7,10],[5,8,0],[7,10,2],[8,0,3],[10,2,5]]"

text \<open>\<^verbatim>\<open>for s in tri: v[(root+s)%12]+=1.0\<close>.\<close>

fun add_triad :: "int \<Rightarrow> int list \<Rightarrow> vec \<Rightarrow> vec" where
  "add_triad rt [] v = v"
| "add_triad rt (s # ss) v = add_triad rt ss (add_at v (nat ((rt + s) mod 12)) 1)"

text \<open>
  \<^verbatim>\<open>chord_vec(root,is_maj)\<close> (the argument \<open>root\<close> is written \<open>rt\<close>): one triad, then
  the two threshold tests, each on a fresh
  \<^verbatim>\<open>random.random()\<close> that is drawn whether or not the test succeeds.
\<close>

definition chord_vec :: "int \<Rightarrow> bool \<Rightarrow> rng \<Rightarrow> vec \<times> rng" where
  "chord_vec rt is_maj g =
     (let degs = (if is_maj then maj_degrees else min_degrees) in
      case random_choice degs g of (tri, g1) \<Rightarrow>
      let v0 = replicate 12 0;
          v1 = add_triad rt tri v0 in
      case random_random g1 of (u1, g2) \<Rightarrow>
      let v2 = (if u1 < 0.35
                then add_at v1 (nat ((rt + (if is_maj then 11 else 10)) mod 12)) 0.7
                else v1) in
      case random_random g2 of (u2, g3) \<Rightarrow>
      let v3 = (if u2 < 0.25 then add_at v2 (nat ((rt + 5) mod 12)) 0.4 else v2) in
      (v3, g3))"

text \<open>\<^verbatim>\<open>for _ in range(n): mix+=0.7*chord_vec(r,is_maj)\<close>.\<close>

fun chord_loop :: "nat \<Rightarrow> int \<Rightarrow> bool \<Rightarrow> vec \<Rightarrow> rng \<Rightarrow> vec \<times> rng" where
  "chord_loop 0 r is_maj mix g = (mix, g)"
| "chord_loop (Suc n) r is_maj mix g =
     (case chord_vec r is_maj g of (c, g') \<Rightarrow>
        chord_loop n r is_maj (vadd mix (smul 0.7 c)) g')"

text \<open>\<^verbatim>\<open>np.roll(v, k)\<close>: entry \<open>i\<close> of the result is entry \<open>(i - k) mod n\<close> of \<open>v\<close>.\<close>

definition np_roll :: "'a list \<Rightarrow> int \<Rightarrow> 'a list" where
  "np_roll v k =
     (if v = [] then v
      else (let s = nat ((- k) mod int (length v)) in drop s v @ take s v))"

text \<open>\<^verbatim>\<open>np.clip(v, lo, None)\<close>.\<close>

definition np_clip_min :: "real \<Rightarrow> vec \<Rightarrow> vec" where
  "np_clip_min lo v = map (max lo) v"

text \<open>
  \<^verbatim>\<open>synth_sample(cls)\<close> in two parts: lines 17 to 20, up to the array before it is
  clipped, and line 21, the clipping and the division by the sum.
\<close>

definition synth_premix :: "int \<Rightarrow> rng \<Rightarrow> vec \<times> rng" where
  "synth_premix cls g =
     (let r = cls div 2;
          is_maj = (cls mod 2 = 0);
          base = rot (if is_maj then maj_t else min_t) r in
      case random_uniform 0.8 1.2 g of (u, g1) \<Rightarrow>
      let mix0 = smul u base in
      case random_randint 1 3 g1 of (n, g2) \<Rightarrow>
      case chord_loop (nat n) r is_maj mix0 g2 of (mix1, g3) \<Rightarrow>
      case random_choice [-2, -1, 1, 2] g3 of (k, g4) \<Rightarrow>
      let mix2 = vadd mix1 (smul 0.15 (np_roll base k)) in
      case np_random_rand 12 g4 of (noise, g5) \<Rightarrow>
      let mix3 = vadd mix2 (smul 0.05 noise) in
      (mix3, g5))"

definition synth_clipped :: "int \<Rightarrow> rng \<Rightarrow> vec \<times> rng" where
  "synth_clipped cls g = (case synth_premix cls g of (mix, g') \<Rightarrow> (np_clip_min 0.000001 mix, g'))"

definition synth_sample :: "int \<Rightarrow> rng \<Rightarrow> vec \<times> rng" where
  "synth_sample cls g = (case synth_clipped cls g of (mix, g') \<Rightarrow> (vdiv mix (sum_list mix), g'))"

section \<open>The dataset builder (train\_key\_tflite.py)\<close>

text \<open>
  The inner loop \<^verbatim>\<open>for _ in range(n_per_class): xs.append(synth_sample(c)); ys.append(c)\<close>
  and the outer loop over \<^verbatim>\<open>range(24)\<close>.
\<close>

fun class_loop :: "nat \<Rightarrow> int \<Rightarrow> vec list \<times> int list \<Rightarrow> rng \<Rightarrow> (vec list \<times> int list) \<times> rng" where
  "class_loop 0 c (xs, ys) g = ((xs, ys), g)"
| "class_loop (Suc n) c (xs, ys) g =
     (case synth_sample c g of (x, g') \<Rightarrow> class_loop n c (xs @ [x], ys @ [c]) g')"

fun classes_loop :: "int list \<Rightarrow> nat \<Rightarrow> vec list \<times> int list \<Rightarrow> rng \<Rightarrow> (vec list \<times> int list) \<times> rng" where
  "classes_loop [] n acc g = (acc, g)"
| "classes_loop (c # cs) n acc g =
     (case class_loop n c acc g of (acc', g') \<Rightarrow> classes_loop cs n acc' g')"

text \<open>Lines 23 to 25: the samples and their labels before they are shuffled.\<close>

definition gen_samples :: "int \<Rightarrow> rng \<Rightarrow> (vec list \<times> int list) \<times> rng" where
  "gen_samples n_per_class g = classes_loop (map int [0..<24]) (nat n_per_class) ([], []) g"

text \<open>\<^verbatim>\<open>tf.keras.utils.to_categorical(ys, k)\<close>: one one-hot row for each label.\<close>

definition to_categorical :: "int list \<Rightarrow> nat \<Rightarrow> matrix" where
  "to_categorical ys k = map (\<lambda>c. map (\<lambda>j. if int j = c then 1 else 0) [0..<k]) ys"

text \<open>
  Lines 27 and 28: \<^verbatim>\<open>idx=np.arange(xs.shape[0]); np.random.shuffle(idx)\<close>, the split
  point \<^verbatim>\<open>n=int(0.9*xs.shape[0])\<close>, and the two slices.
\<close>

definition shuffled_idx :: "int \<Rightarrow> rng \<Rightarrow> nat list" where
  "shuffled_idx n_per_class g =
     (case gen_samples n_per_class g of ((xs, ys), g1) \<Rightarrow> fst (np_shuffle [0..<length xs] g1))"

definition split_point :: "nat \<Rightarrow> nat" where
  "split_point m = nat \<lfloor>0.9 * real m\<rfloor>"

definition make_dataset ::
  "int \<Rightarrow> rng \<Rightarrow> ((vec list \<times> matrix) \<times> (vec list \<times> matrix)) \<times> rng" where
  "make_dataset n_per_class g =
     (case gen_samples n_per_class g of ((xs, ys), g1) \<Rightarrow>
      let ys1 = to_categorical ys 24 in
      case np_shuffle [0..<length xs] g1 of (idx, g2) \<Rightarrow>
      let xs2 = map (\<lambda>i. xs ! i) idx;
          ys2 = map (\<lambda>i. ys1 ! i) idx;
          n = split_point (length xs2) in
      (((take n xs2, take n ys2), (drop n xs2, drop n ys2)), g2))"

section \<open>Auxiliary notions for the proofs\<close>

text \<open>A matrix of \<open>m\<close> rows of \<open>n\<close> entries each.\<close>

definition shape :: "nat \<Rightarrow> nat \<Rightarrow> matrix \<Rightarrow> bool" where
  "shape m n W = (length W = m \<and> list_all (\<lambda>row. length row = n) W)"

text \<open>Every entry of an array lies between two bounds.\<close>

definition entries_in :: "real \<Rightarrow> real \<Rightarrow> vec \<Rightarrow> bool" where
  "entries_in lo hi v = list_all (\<lambda>x. lo \<le> x \<and> x \<le> hi) v"

text \<open>The random source whose every raw outcome is zero, a concrete input.\<close>

definition zero_rng :: rng where
  "zero_rng = \<lparr>py_tape = (\<lambda>n. 0), np_tape = (\<lambda>n. 0)\<rparr>"

text \<open>
  A random source that makes \<^verbatim>\<open>random.randint(1,3)\<close> return 3 (its raw outcome, the second
  draw of \<open>synth_sample\<close>, is 2) and has every other raw outcome zero.
\<close>

definition three_chords_rng :: rng where
  "three_chords_rng = \<lparr>py_tape = (\<lambda>n. if n = 1 then 2 else 0), np_tape = (\<lambda>n. 0)\<rparr>"

subsection \<open>The draws of the synthesizer, by name\<close>

text \<open>
  The triad, the draw of the leading-tone test and the draw of the subdominant test of
  one call \<open>chord_vec rt is_maj h\<close>; they do not depend on \<open>rt\<close>.
\<close>

definition triad_draw :: "bool \<Rightarrow> rng \<Rightarrow> int list" where
  "triad_draw is_maj h = fst (random_choice (if is_maj then maj_degrees else min_degrees) h)"

definition lead_draw :: "bool \<Rightarrow> rng \<Rightarrow> real" where
  "lead_draw is_maj h =
     fst (random_random (snd (random_choice (if is_maj then maj_degrees else min_degrees) h)))"

definition sub_draw :: "bool \<Rightarrow> rng \<Rightarrow> real" where
  "sub_draw is_maj h =
     fst (random_random (snd (random_random
       (snd (random_choice (if is_maj then maj_degrees else min_degrees) h)))))"

text \<open>
  In \<open>synth_sample\<close> started in state \<open>g\<close>: the number of iterations of the chord loop, the
  state in which the loop starts, and the state before iteration \<open>i\<close> of a loop started in
  state \<open>h\<close>.
\<close>

definition n_chords :: "rng \<Rightarrow> nat" where
  "n_chords g = nat (fst (random_randint 1 3 (snd (random_uniform 0.8 1.2 g))))"

definition chords_rng :: "rng \<Rightarrow> rng" where
  "chords_rng g = snd (random_randint 1 3 (snd (random_uniform 0.8 1.2 g)))"

definition chord_rng :: "int \<Rightarrow> bool \<Rightarrow> rng \<Rightarrow> nat \<Rightarrow> rng" where
  "chord_rng r is_maj h i = ((\<lambda>s. snd (chord_vec r is_maj s)) ^^ i) h"

text \<open>
  What line 20 of \<open>synth_sample\<close> adds after the loop: the smear and the noise, drawn in
  the state the loop leaves.
\<close>

definition after_loop :: "int \<Rightarrow> rng \<Rightarrow> vec" where
  "after_loop cls g =
     (let r = cls div 2;
          is_maj = (cls mod 2 = 0);
          base = rot (if is_maj then maj_t else min_t) r;
          g3 = chord_rng r is_maj (chords_rng g) (n_chords g) in
      case random_choice [-2, -1, 1, 2] g3 of (k, g4) \<Rightarrow>
      case np_random_rand 12 g4 of (noise, g5) \<Rightarrow>
      vadd (smul 0.15 (np_roll base k)) (smul 0.05 noise))"

subsection \<open>The parts of the dataset, by name\<close>

text \<open>
  The generated samples and labels (before the shuffle), and the four arrays that
  \<open>make_dataset\<close> returns.
\<close>

definition gen_xs :: "int \<Rightarrow> rng \<Rightarrow> vec list" where
  "gen_xs N g = fst (fst (gen_samples N g))"

definition gen_ys :: "int \<Rightarrow> rng \<Rightarrow> int list" where
  "gen_ys N g = snd (fst (gen_samples N g))"

definition train_x :: "int \<Rightarrow> rng \<Rightarrow> vec list" where
  "train_x N g = fst (fst (fst (make_dataset N g)))"

definition train_y :: "int \<Rightarrow> rng \<Rightarrow> matrix" where
  "train_y N g = snd (fst (fst (make_dataset N g)))"

definition val_x :: "int \<Rightarrow> rng \<Rightarrow> vec list" where
  "val_x N g = fst (snd (fst (make_dataset N g)))"

definition val_y :: "int \<Rightarrow> rng \<Rightarrow> matrix" where
  "val_y N g = snd (snd (fst (make_dataset N g)))"

section \<open>Rotation and normalisation of the profiles\<close>

lemma length_rot: "length (rot v r) = length v"
  by (simp add: rot_def Let_def)

lemma rot_eq_rotate: "length v = 12 \<Longrightarrow> rot v r = rotate (nat (r mod 12)) v"
proof -
  assume len: "length v = 12"
  have "nat (r mod 12) < 12" by simp
  then have "nat (r mod 12) mod length v = nat (r mod 12)" using len by simp
  then show ?thesis by (simp add: rot_def Let_def rotate_drop_take)
qed

lemma RotateLeft_rotate: "RotateLeft v r = rotate (r mod 12) v"
  by (simp add: RotateLeft_def rotate_def)

lemma trunc_rem_wrap: "(sgn r * (\<bar>r\<bar> mod 12) + 12) mod 12 = r mod (12::int)"
proof (cases "0 \<le> r")
  case True
  then show ?thesis by (cases "r = 0") (simp_all add: sgn_if)
next
  case False
  then have "sgn r * (\<bar>r\<bar> mod 12) = - ((- r) mod 12)" by (simp add: sgn_if)
  then show ?thesis by (simp add: mod_minus_eq)
qed

lemma nat_shift_mod: "(nat (r mod 12) + k) mod 12 = nat ((int k + r) mod 12)"
proof -
  have "int ((nat (r mod 12) + k) mod 12) = (r mod 12 + int k) mod 12"
    by (simp add: zmod_int)
  also have "\<dots> = (int k + r) mod 12"
    by (metis add.commute mod_add_left_eq)
  finally show ?thesis by linarith
qed

lemma rot_nth: "length v = 12 \<Longrightarrow> k < 12 \<Longrightarrow> rot v r ! k = v ! nat ((int k + r) mod 12)"
  by (simp add: rot_eq_rotate nth_rotate nat_shift_mod)

lemma sum_list_rot: "sum_list (map f (rot v r)) = (sum_list (map f v) :: real)"
proof -
  have "sum_list (map f (rot v r)) = sum_list (map f (take (nat (r mod 12)) v @ drop (nat (r mod 12)) v))"
    unfolding rot_def Let_def map_append sum_list_append by (rule add.commute)
  then show ?thesis by simp
qed

lemma sumsq_rot: "sumsq (rot v r) = sumsq v"
  by (simp add: sumsq_def sum_list_rot)

lemma sumsq_vdiv: "sumsq (vdiv v c) = sumsq v / (c * c)"
  by (induction v) (simp_all add: sumsq_def vdiv_def add_divide_distrib)

lemma sumsq_maj_lit: "sumsq maj_lit = 164.6799" 
  by (simp add: sumsq_def maj_lit_def)
lemma sumsq_min_lit: "sumsq min_lit = 181.1021"
  by (simp add: sumsq_def min_lit_def)

lemma sumsq_normalised:
  assumes "0 < sumsq v"
  shows "sumsq (vdiv v (linalg_norm v)) = 1"
proof -
  have "linalg_norm v * linalg_norm v = sumsq v"
    using assms by (simp add: linalg_norm_def sumsq_def)
  then show ?thesis using assms by (simp add: sumsq_vdiv)
qed

lemma sumsq_maj: "sumsq maj = 1"
  unfolding maj_def by (rule sumsq_normalised) (simp add: sumsq_maj_lit)

lemma sumsq_minr: "sumsq minr = 1"
  unfolding minr_def by (rule sumsq_normalised) (simp add: sumsq_min_lit)

lemma sumsq_rotatedProfile: "sumsq (rotatedProfile keyClass) = 1"
  by (simp add: rotatedProfile_def Let_def sumsq_rot sumsq_maj sumsq_minr)

lemma length_maj: "length maj = 12" by (simp add: maj_def vdiv_def maj_lit_def)
lemma length_minr: "length minr = 12" by (simp add: minr_def vdiv_def min_lit_def)

lemma rotatedProfile_refines:
  assumes "0 \<le> keyClass" 
  shows "rotatedProfile keyClass = rotatedProfile_spec (nat keyClass)"
proof -
  have "int (nat keyClass mod 2) = keyClass mod 2" using assms
    by (simp add: zmod_int)
  then have e: "even (nat keyClass) \<longleftrightarrow> keyClass mod 2 = 0"
    by (simp add: even_iff_mod_2_eq_zero) linarith
  have d: "nat (keyClass div 2 mod 12) = (nat keyClass div 2) mod 12" using assms
    by (simp add: nat_div_distrib nat_mod_distrib)
  show ?thesis
    by (simp add: rotatedProfile_def rotatedProfile_spec_def Let_def e d baseProfile_def
        RotateLeft_rotate rot_eq_rotate length_maj length_minr)
qed

text \<open>
  Claim C8.  For every key class, the squares of the twelve entries of the rotated profile
  sum to 1: each base profile is divided by its Euclidean norm when it is built, and
  \<open>rot\<close> keeps the sum of squares of any array.  Over the reals the sum is exactly 1
  (rounding is not modelled); the equation holds for the template the scripts compute
  and for the specification's \<open>rotatedProfile\<close>.
\<close>

theorem rotatedProfile_unit_norm:
  "sumsq (rotatedProfile keyClass) = 1 \<and>
   sumsq (rotatedProfile_spec k) = 1 \<and>
   sumsq (baseProfile m) = 1 \<and>
   sumsq (rot v r) = sumsq v"
proof -
  have "sumsq (rotatedProfile_spec k) = sumsq (rotatedProfile (int k))"
    by (simp add: rotatedProfile_refines[of "int k"])
  moreover have "sumsq (baseProfile m) = 1"
    by (cases m) (simp_all add: baseProfile_def sumsq_maj sumsq_minr)
  ultimately show ?thesis by (simp add: sumsq_rotatedProfile sumsq_rot)
qed

section \<open>The loop that builds the weight matrix\<close>

lemma length_rotatedProfile: "length (rotatedProfile i) = 12"
  by (simp add: rotatedProfile_def Let_def length_rot length_maj length_minr)

lemma shape_nth: "shape m n W \<Longrightarrow> k < m \<Longrightarrow> length (W ! k) = n"
  by (simp add: shape_def list_all_length)

lemma shape_set_col: "shape m n W \<Longrightarrow> length v = m \<Longrightarrow> shape m n (set_col W i v)"
  by (simp add: shape_def list_all_length set_col_def)

lemma col_set_col:
  assumes "shape m n W" "length v = m" "i < n"
  shows "col (set_col W i v) j = (if j = i then v else col W j)"
proof (rule nth_equalityI)
  show "length (col (set_col W i v) j) = length (if j = i then v else col W j)"
    using assms by (simp add: col_def set_col_def shape_def)
next
  fix k assume "k < length (col (set_col W i v) j)"
  then have k: "k < m" using assms by (simp add: col_def set_col_def shape_def)
  then have "length (W ! k) = n" using assms(1) by (rule shape_nth[rotated])  
  then show "col (set_col W i v) j ! k = (if j = i then v else col W j) ! k"
    using assms k by (simp add: col_def set_col_def shape_def)
qed

lemma shape_build_step: "shape 12 24 W \<Longrightarrow> shape 12 24 (build_step i W)"
  by (simp add: build_step_def shape_set_col length_rotatedProfile)

lemma col_build_step:
  "shape 12 24 W \<Longrightarrow> i < 24 \<Longrightarrow>
     col (build_step i W) j = (if j = i then rotatedProfile (int i) else col W j)"
  by (simp add: build_step_def col_set_col length_rotatedProfile)

lemma fold_build_step:
  "shape 12 24 W \<Longrightarrow> list_all (\<lambda>i. i < 24) cs \<Longrightarrow>
     shape 12 24 (fold build_step cs W) \<and>
     col (fold build_step cs W) j
       = (if j \<in> set cs then rotatedProfile (int j) else col W j)"
proof (induction cs arbitrary: W)
  case Nil
  then show ?case by simp
next
  case (Cons c cs)
  have s: "shape 12 24 (build_step c W)" using Cons.prems(1) by (rule shape_build_step)
  have c: "c < 24" and cs: "list_all (\<lambda>i. i < 24) cs" using Cons.prems(2) by simp_all
  show ?case using Cons.IH[OF s cs] col_build_step[OF Cons.prems(1) c, of j] by auto
qed

lemma shape_zeros2: "shape m n (zeros2 m n)"
  by (simp add: shape_def zeros2_def list_all_length)

lemma shape_build_W: "shape 12 24 build_W"
  unfolding build_W_def using fold_build_step[OF shape_zeros2, of "[0..<24]"]
  by (simp add: list_all_length)

lemma col_build_W: "i < 24 \<Longrightarrow> col build_W i = rotatedProfile (int i)"
  unfolding build_W_def using fold_build_step[OF shape_zeros2, of "[0..<24]" i]
  by (simp add: list_all_length)

lemma dot_sum_nth:
  "length u = n \<Longrightarrow> length v = n \<Longrightarrow> dot u v = (\<Sum>k<n. u ! k * v ! k)"
  by (simp add: dot_def sum_list_sum_nth atLeast0LessThan)

lemma ncols_shape: "shape m n W \<Longrightarrow> 0 < m \<Longrightarrow> (case W of [] \<Rightarrow> 0 | r # _ \<Rightarrow> length r) = n"
  by (cases W) (auto simp: shape_def)

lemma ncols_build_W: "(case build_W of [] \<Rightarrow> 0 | r # _ \<Rightarrow> length r) = 24"
  using shape_build_W by (rule ncols_shape) simp

lemma vadd_build_b: "length l = 24 \<Longrightarrow> vadd l build_b = l"
  by (simp add: vadd_def build_b_def list_eq_iff_nth_eq)

lemma model_fn_logits:
  assumes "length x = 12"
  shows "model_fn [x] = Some [map (\<lambda>j. dot x (col build_W j)) [0..<24]]"
  using assms by (simp add: model_fn_def matmul_def ncols_build_W vadd_build_b)

section \<open>The analytic classifier\<close>

lemma length_col_build_W: "length (col build_W j) = 12"
  using shape_build_W by (simp add: shape_def col_def)

text \<open>
  Claim C1.  The loop of make_key_tflite.py leaves a matrix of 12 rows and 24 columns
  whose column \<open>i\<close>, for every \<open>i < 24\<close>, is the specification's \<open>rotatedProfile(i)\<close>
  (the left rotation by \<open>i div 2\<close> of the normalised major profile for even \<open>i\<close>, of the
  minor profile for odd \<open>i\<close>); the bias is the zero array of length 24; and on an input
  row \<open>x\<close> of 12 entries \<open>model_fn\<close> returns the row of the 24 logits
  \<open>(\<Sum>k<12. x\<^sub>k * W\<^sub>k\<^sub>j) + b\<^sub>j\<close>.
\<close>

theorem analytic_classifier_build:
  "length build_W = 12 \<and> list_all (\<lambda>row. length row = 24) build_W \<and>
   build_b = replicate 24 0 \<and>
   (\<forall>i<24. col build_W i = rotatedProfile_spec i) \<and>
   (\<forall>x. length x = 12 \<longrightarrow>
      model_fn [x] = Some [map (\<lambda>j. (\<Sum>k<12. x ! k * build_W ! k ! j) + build_b ! j) [0..<24]])"
proof -
  have "\<And>i. i < 24 \<Longrightarrow> col build_W i = rotatedProfile_spec i"
    using col_build_W rotatedProfile_refines[of "int i" for i] by simp
  moreover have "model_fn [x] = Some [map (\<lambda>j. (\<Sum>k<12. x ! k * build_W ! k ! j) + build_b ! j) [0..<24]]"
    if x: "length x = 12" for x
  proof -
    have "dot x (col build_W j) = (\<Sum>k<12. x ! k * build_W ! k ! j) + build_b ! j" if "j < 24" for j
    proof -
      have "dot x (col build_W j) = (\<Sum>k<12. x ! k * col build_W j ! k)"
        using x length_col_build_W by (rule dot_sum_nth)
      also have "\<dots> = (\<Sum>k<12. x ! k * build_W ! k ! j)"
        using shape_build_W by (intro sum.cong) (simp_all add: col_def shape_def)
      finally show ?thesis using that by (simp add: build_b_def)
    qed
    then show ?thesis by (simp add: model_fn_logits[OF x])
  qed
  ultimately show ?thesis using shape_build_W by (simp add: shape_def build_b_def)
qed

theorem analytic_classifier_build_witness:
  "col build_W 5 = rotatedProfile_spec 5 \<and>
   model_fn [replicate 12 0] = Some [replicate 24 0]"
proof -
  have "map (\<lambda>j. (\<Sum>k<12. replicate 12 0 ! k * build_W ! k ! j) + build_b ! j) [0..<24] = replicate 24 (0::real)"
    by (simp add: list_eq_iff_nth_eq build_b_def)
  then show ?thesis using analytic_classifier_build by simp
qed

section \<open>The wrap of the rotation, and the index of the tonic weight\<close>

text \<open>
  Claim C7.  \<open>rot\<close> wraps the rotation amount modulo 12 for every integer \<open>r\<close>, negative
  or above 12: on an array of 12 entries, \<open>rot v r\<close> is the left rotation of \<open>v\<close> by
  \<open>((r mod 12) + 12) mod 12\<close> positions, whether the inner remainder is the floored one of
  Python or the truncated one (written out with \<open>sgn\<close>); and for a key class from 0 to 23
  the template the scripts compute is the left rotation of the base profile of its parity
  by \<open>keyClass div 2\<close>, the specification's \<open>rotatedProfile\<close>.
\<close>

theorem rot_wraps_modulo_12:
  "length v = 12 \<Longrightarrow> 0 \<le> keyClass \<Longrightarrow> keyClass < 24 \<Longrightarrow>
     rot v r = RotateLeft v (nat (((r mod 12) + 12) mod 12)) \<and>
     rot v r = RotateLeft v (nat ((sgn r * (\<bar>r\<bar> mod 12) + 12) mod 12)) \<and>
     rotatedProfile keyClass = rotatedProfile_spec (nat keyClass)"
proof -
  assume len: "length v = 12" and k: "0 \<le> keyClass"
  have a: "nat (((r mod 12) + 12) mod 12) mod 12 = nat (r mod 12)"
    by (simp add: nat_mod_distrib)
  have b: "nat ((sgn r * (\<bar>r\<bar> mod 12) + 12) mod 12) mod 12 = nat (r mod 12)"
    by (simp only: trunc_rem_wrap) (simp add: nat_mod_distrib)
  show ?thesis
    using rotatedProfile_refines[OF k]
    by (simp only: RotateLeft_rotate a b rot_eq_rotate[OF len])
qed

theorem rot_wraps_modulo_12_witness:
  "rot [0, 1, 2, 3, 4, 5, 6, 7, 8, 9, 10, 11 :: nat] (- 7) = [5, 6, 7, 8, 9, 10, 11, 0, 1, 2, 3, 4] \<and>
   RotateLeft [0, 1, 2, 3, 4, 5, 6, 7, 8, 9, 10, 11 :: nat] (nat (((- 7 mod 12) + 12) mod 12))
     = [5, 6, 7, 8, 9, 10, 11, 0, 1, 2, 3, 4] \<and>
   rot [0, 1, 2, 3, 4, 5, 6, 7, 8, 9, 10, 11 :: nat] 14 = [2, 3, 4, 5, 6, 7, 8, 9, 10, 11, 0, 1] \<and>
   RotateLeft [0, 1, 2, 3, 4, 5, 6, 7, 8, 9, 10, 11 :: nat] (nat (((14 mod 12) + 12) mod 12))
     = [2, 3, 4, 5, 6, 7, 8, 9, 10, 11, 0, 1] \<and>
   rotatedProfile 3 = rotatedProfile_spec (nat 3)"
proof -
  have r1: "rot [0, 1, 2, 3, 4, 5, 6, 7, 8, 9, 10, 11 :: nat] (- 7) = [5, 6, 7, 8, 9, 10, 11, 0, 1, 2, 3, 4]"
    by (simp add: rot_def)
  have r2: "rot [0, 1, 2, 3, 4, 5, 6, 7, 8, 9, 10, 11 :: nat] 14 = [2, 3, 4, 5, 6, 7, 8, 9, 10, 11, 0, 1]"
    by (simp add: rot_def)
  show ?thesis
    using rot_wraps_modulo_12[of "[0, 1, 2, 3, 4, 5, 6, 7, 8, 9, 10, 11 :: nat]" 3 "- 7"]
      rot_wraps_modulo_12[of "[0, 1, 2, 3, 4, 5, 6, 7, 8, 9, 10, 11 :: nat]" 3 14]
    by (simp only: r1 r2) simp
qed

lemma linalg_norm_maj_lit_pos: "0 < linalg_norm maj_lit"
  using sumsq_maj_lit by (simp add: linalg_norm_def sumsq_def)

lemma linalg_norm_min_lit_pos: "0 < linalg_norm min_lit"
  using sumsq_min_lit by (simp add: linalg_norm_def sumsq_def)

lemma length_maj_lit: "length maj_lit = 12" by (simp add: maj_lit_def)
lemma length_min_lit: "length min_lit = 12" by (simp add: min_lit_def)

lemma maj_nth: "k < 12 \<Longrightarrow> maj ! k = maj_lit ! k / linalg_norm maj_lit"
  by (simp add: maj_def vdiv_def length_maj_lit)

lemma minr_nth: "k < 12 \<Longrightarrow> minr ! k = min_lit ! k / linalg_norm min_lit"
  by (simp add: minr_def vdiv_def length_min_lit)

lemma replicate_12: "replicate 12 x = [x, x, x, x, x, x, x, x, x, x, x, x]"
  by (simp add: numeral_eq_Suc)

lemma unit_float_0: "unit_float 0 = 0"
  by (simp add: unit_float_def)

lemma chord_vec_zero_rng:
  "fst (chord_vec 1 True zero_rng) = [0.7, 1, 0, 0, 0, 1, 0.4, 0, 1, 0, 0, 0]"
  by (simp add: chord_vec_def zero_rng_def random_choice_def randbelow_def py_draw_def
      random_random_def unit_float_0 maj_degrees_def add_at_def Let_def replicate_12)

text \<open>
  Claim C4, evaluated on the code at key class 2 (tonic 1, major).  The claim places the
  base profile's entry 0 at index \<open>tonic = 1\<close> of the rotated profile.  The left rotation
  of the code puts entry 2 of the base profile there, which differs from entry 0, and
  puts entry 0 at index 11; \<open>chord_vec\<close>, called with the same tonic, puts the root of the
  tonic triad at index 1.
\<close>

theorem tonic_weight_index:
  "rotatedProfile 2 ! 1 = baseProfile Major ! 2 \<and>
   rotatedProfile 2 ! 1 \<noteq> baseProfile Major ! 0 \<and>
   rotatedProfile 2 ! 11 = baseProfile Major ! 0 \<and>
   fst (chord_vec (2 div 2) (2 mod 2 = (0::int)) zero_rng) ! 1 = 1"
proof -
  have "rotatedProfile 2 = rot maj 1" by (simp add: rotatedProfile_def)
  moreover have "rot maj 1 ! 1 = maj ! 2" "rot maj 1 ! 11 = maj ! 0"
    by (simp_all add: rot_nth length_maj)
  moreover have "maj ! 2 \<noteq> maj ! 0"
  proof -
    have "maj_lit ! 2 \<noteq> maj_lit ! 0" by (simp add: maj_lit_def)
    then show ?thesis using linalg_norm_maj_lit_pos by (simp add: maj_nth)
  qed
  ultimately show ?thesis by (simp add: baseProfile_def chord_vec_zero_rng)
qed

section \<open>Distinct unit vectors\<close>

lemma dot_self: "dot u u = sumsq u"
  by (induction u) (simp_all add: dot_def sumsq_def)

lemma sumsq_diff:
  "length u = length v \<Longrightarrow> sumsq (map2 (-) u v) = sumsq u + sumsq v - 2 * dot u v"
  by (induction u v rule: list_induct2) (simp_all add: sumsq_def dot_def algebra_simps)

lemma sumsq_diff_pos:
  "length u = length v \<Longrightarrow> u \<noteq> v \<Longrightarrow> 0 < sumsq (map2 (-) u v)"
proof (induction u v rule: list_induct2)
  case Nil
  then show ?case by simp
next
  case (Cons x xs y ys)
  have nn: "0 \<le> sumsq (map2 (-) xs ys)"
    unfolding sumsq_def by (rule sum_list_nonneg) auto
  show ?case
  proof (cases "x = y")
    case True
    then have "xs \<noteq> ys" using Cons.prems by simp
    then have "0 < sumsq (map2 (-) xs ys)" by (rule Cons.IH)
    then show ?thesis using True by (simp add: sumsq_def)
  next
    case False
    then have "0 < (x - y) * (x - y)" by (simp add: zero_less_mult_iff) linarith
    then show ?thesis using nn by (simp add: sumsq_def)
  qed
qed

lemma unit_dot_less:
  assumes "length u = length v" "sumsq u = 1" "sumsq v = 1" "u \<noteq> v"
  shows "dot u v < 1"
  using sumsq_diff[OF assms(1)] sumsq_diff_pos[OF assms(1) assms(4)] assms(2,3) by simp

lemma maj_lit_peak: "0 < d \<Longrightarrow> d < 12 \<Longrightarrow> maj_lit ! d < maj_lit ! 0"
proof -
  assume d: "0 < d" "d < 12"
  have "list_all (\<lambda>x. x < maj_lit ! 0) (tl maj_lit)" by (simp add: maj_lit_def)
  then have a: "\<And>n. n < 11 \<Longrightarrow> tl maj_lit ! n < maj_lit ! 0"
    by (simp add: list_all_length length_maj_lit)
  obtain n where n: "d = Suc n" using d by (cases d) simp_all
  then have "tl maj_lit ! n = maj_lit ! d" using d by (simp add: nth_tl length_maj_lit)
  then show ?thesis using a[of n] n d by simp
qed

lemma min_lit_peak: "0 < d \<Longrightarrow> d < 12 \<Longrightarrow> min_lit ! d < min_lit ! 0"
proof -
  assume d: "0 < d" "d < 12"
  have "list_all (\<lambda>x. x < min_lit ! 0) (tl min_lit)" by (simp add: min_lit_def)
  then have a: "\<And>n. n < 11 \<Longrightarrow> tl min_lit ! n < min_lit ! 0"
    by (simp add: list_all_length length_min_lit)
  obtain n where n: "d = Suc n" using d by (cases d) simp_all
  then have "tl min_lit ! n = min_lit ! d" using d by (simp add: nth_tl length_min_lit)
  then show ?thesis using a[of n] n d by simp
qed

lemma maj_peak: "0 < d \<Longrightarrow> d < 12 \<Longrightarrow> maj ! d < maj ! 0"
  using maj_lit_peak[of d] linalg_norm_maj_lit_pos by (simp add: maj_nth divide_strict_right_mono)

lemma minr_peak: "0 < d \<Longrightarrow> d < 12 \<Longrightarrow> minr ! d < minr ! 0"
  using min_lit_peak[of d] linalg_norm_min_lit_pos by (simp add: minr_nth divide_strict_right_mono)

lemma rot_inj_peak:
  assumes len: "length v = 12" and peak: "\<And>d. 0 < d \<Longrightarrow> d < 12 \<Longrightarrow> v ! d < (v ! 0 :: real)"
    and a: "0 \<le> a" "a < 12" and b: "0 \<le> b" "b < 12" and eq: "rot v a = rot v b"
  shows "a = b"
proof (rule ccontr)
  assume ne: "a \<noteq> b"
  define k where "k = nat ((- a) mod 12)"
  have k: "k < 12" by (simp add: k_def)
  have "(int k + a) mod 12 = 0" by (simp add: k_def mod_simps)
  then have l: "rot v a ! k = v ! 0" using len k by (simp add: rot_nth)
  define d where "d = nat ((int k + b) mod 12)"
  have d: "d < 12" by (simp add: d_def)
  have "(int k + b) mod 12 = (b - a) mod 12"
    by (simp add: k_def mod_simps)
  moreover have "(b - a) mod 12 \<noteq> 0" using a b ne by presburger
  ultimately have "0 < d" by (simp add: d_def) 
  then have "v ! d < v ! 0" using d by (rule peak)
  moreover have "rot v b ! k = v ! d" using len k by (simp add: rot_nth d_def)
  ultimately show False using l eq by simp
qed

section \<open>The noise-free profiles\<close>

lemma sum_list_vdiv: "sum_list (vdiv v c) = sum_list v / c"
  by (induction v) (simp_all add: vdiv_def add_divide_distrib)

lemma sum_list_rot_id: "sum_list (rot v r) = (sum_list v :: real)"
  using sum_list_rot[of "\<lambda>x. x" v r] by simp

lemma norm_sq_maj_lit: "linalg_norm maj_lit * linalg_norm maj_lit = 164.6799"
  using sumsq_maj_lit by (simp add: linalg_norm_def sumsq_def)

lemma norm_sq_min_lit: "linalg_norm min_lit * linalg_norm min_lit = 181.1021"
  using sumsq_min_lit by (simp add: linalg_norm_def sumsq_def)

lemma sum_list_maj: "sum_list maj = 41.79 / linalg_norm maj_lit"
  by (simp add: maj_def sum_list_vdiv) (simp add: maj_lit_def)

lemma sum_list_minr: "sum_list minr = 44.51 / linalg_norm min_lit"
  by (simp add: minr_def sum_list_vdiv) (simp add: min_lit_def)

lemma sum_maj_neq_minr: "sum_list maj \<noteq> sum_list minr"
proof
  assume "sum_list maj = sum_list minr"
  then have "41.79 * linalg_norm min_lit = 44.51 * linalg_norm maj_lit"
    using linalg_norm_maj_lit_pos linalg_norm_min_lit_pos
    by (simp add: sum_list_maj sum_list_minr field_simps)
  then have "(41.79 * linalg_norm min_lit) * (41.79 * linalg_norm min_lit)
      = (44.51 * linalg_norm maj_lit) * (44.51 * linalg_norm maj_lit)" by simp
  then have "41.79 * 41.79 * (linalg_norm min_lit * linalg_norm min_lit)
      = 44.51 * 44.51 * (linalg_norm maj_lit * linalg_norm maj_lit)"
    by (simp only: mult.assoc mult.left_commute)
  then show False by (simp only: norm_sq_maj_lit norm_sq_min_lit) simp
qed

lemma rotatedProfile_inj:
  assumes i: "0 \<le> i" "i < 24" and j: "0 \<le> j" "j < 24"
    and eq: "rotatedProfile i = rotatedProfile j"
  shows "i = j"
proof -
  have ri: "0 \<le> i div 2" "i div 2 < 12" and rj: "0 \<le> j div 2" "j div 2 < 12"
    using i j by simp_all
  have par: "i mod 2 = j mod 2"
  proof (rule ccontr)
    assume ne: "i mod 2 \<noteq> j mod 2"
    have "sum_list (rotatedProfile i) \<noteq> sum_list (rotatedProfile j)"
    proof (cases "i mod 2 = 0")
      case True
      moreover from True ne have "j mod 2 \<noteq> 0" by simp
      ultimately show ?thesis using sum_maj_neq_minr
        by (simp add: rotatedProfile_def Let_def sum_list_rot_id)
    next
      case False
      moreover from False ne have "j mod 2 = 0" by presburger
      ultimately show ?thesis using sum_maj_neq_minr
        by (simp add: rotatedProfile_def Let_def sum_list_rot_id)
    qed
    then show False using eq by simp
  qed
  have "i div 2 = j div 2"
  proof (cases "i mod 2 = 0")
    case True
    then have "rot maj (i div 2) = rot maj (j div 2)"
      using eq par by (simp add: rotatedProfile_def Let_def)
    then show ?thesis using ri rj by (intro rot_inj_peak[OF length_maj maj_peak])
  next
    case False
    then have "rot minr (i div 2) = rot minr (j div 2)"
      using eq par by (simp add: rotatedProfile_def Let_def)
    then show ?thesis using ri rj by (intro rot_inj_peak[OF length_minr minr_peak])
  qed
  then show ?thesis using par by (metis div_mult_mod_eq)
qed

lemma rotatedProfile_dot_less:
  assumes "0 \<le> i" "i < 24" "0 \<le> j" "j < 24" "j \<noteq> i"
  shows "dot (rotatedProfile i) (rotatedProfile j) < 1"
proof (rule unit_dot_less)
  show "rotatedProfile i \<noteq> rotatedProfile j"
    using rotatedProfile_inj[OF assms(1-4)] assms(5) by auto
qed (simp_all add: length_rotatedProfile sumsq_rotatedProfile)

text \<open>
  Claim C2.  For every key class \<open>i\<close> from 0 to 23, \<open>model_fn\<close> on the noise-free row
  \<open>rotatedProfile(i)\<close> returns a row of 24 logits whose entry \<open>i\<close> is strictly above every
  other entry: the dot product of \<open>rotatedProfile(i)\<close> with itself strictly exceeds its dot
  product with \<open>rotatedProfile(j)\<close> for every other \<open>j\<close> from 0 to 23.  (Over the reals;
  rounding is not modelled.)
\<close>

theorem noise_free_profile_argmax:
  "i < 24 \<Longrightarrow>
     (\<exists>l. model_fn [rotatedProfile_spec i] = Some [l] \<and> length l = 24 \<and>
          (\<forall>j<24. j \<noteq> i \<longrightarrow>
             l ! j < l ! i \<and>
             dot (rotatedProfile_spec i) (rotatedProfile_spec j)
               < dot (rotatedProfile_spec i) (rotatedProfile_spec i)))"
proof -
  assume i: "i < 24"
  define x where "x = rotatedProfile (int i)"
  define l where "l = map (\<lambda>j. dot x (col build_W j)) [0..<24]"
  have spec: "rotatedProfile_spec n = rotatedProfile (int n)" for n
    by (simp add: rotatedProfile_refines[of "int n"])
  have len: "length x = 12" by (simp add: x_def length_rotatedProfile)
  have m: "model_fn [x] = Some [l]" unfolding l_def using len by (rule model_fn_logits)
  have self: "dot x (rotatedProfile (int i)) = 1"
    by (simp add: x_def dot_self sumsq_rotatedProfile)
  have entry: "l ! j = dot x (rotatedProfile (int j))" if "j < 24" for j
    using that by (simp add: l_def col_build_W)
  have other: "dot x (rotatedProfile (int j)) < 1" if "j < 24" "j \<noteq> i" for j
    unfolding x_def using that i by (intro rotatedProfile_dot_less) simp_all
  have "l ! j < l ! i \<and> dot x (rotatedProfile (int j)) < dot x (rotatedProfile (int i))"
    if "j < 24" "j \<noteq> i" for j
    using other[OF that] entry[OF that(1)] entry[OF i] self by simp
  then show ?thesis using m by (simp add: spec x_def l_def)
qed

theorem noise_free_profile_argmax_witness:
  "\<exists>l. model_fn [rotatedProfile_spec 3] = Some [l] \<and> length l = 24 \<and> l ! 4 < l ! 3 \<and>
       dot (rotatedProfile_spec 3) (rotatedProfile_spec 4)
         < dot (rotatedProfile_spec 3) (rotatedProfile_spec 3)"
proof -
  obtain l where l: "model_fn [rotatedProfile_spec 3] = Some [l]" "length l = 24"
    "\<forall>j<24. j \<noteq> 3 \<longrightarrow> l ! j < l ! 3 \<and>
        dot (rotatedProfile_spec 3) (rotatedProfile_spec j)
          < dot (rotatedProfile_spec 3) (rotatedProfile_spec 3)"
    using noise_free_profile_argmax[of 3] by auto
  from l(3) have "l ! 4 < l ! 3 \<and> dot (rotatedProfile_spec 3) (rotatedProfile_spec 4)
          < dot (rotatedProfile_spec 3) (rotatedProfile_spec 3)" by simp
  then show ?thesis using l(1,2) by blast
qed

section \<open>Ranges of the draws and shapes of the arrays\<close>

lemma unit_float_range: "0 \<le> unit_float k \<and> unit_float k < 1"
proof -
  have "k mod 2 ^ 53 < 2 ^ 53" by simp
  then have "real (k mod 2 ^ 53) < 2 ^ 53"
    by (metis of_nat_less_iff of_nat_numeral of_nat_power)
  then show ?thesis by (simp add: unit_float_def)
qed

lemma random_random_range:
  "0 \<le> fst (random_random g) \<and> fst (random_random g) < 1"
  using unit_float_range by (simp add: random_random_def py_draw_def)

lemma random_uniform_range:
  "a \<le> b \<Longrightarrow> a \<le> fst (random_uniform a b g) \<and> fst (random_uniform a b g) \<le> b"
proof -
  assume ab: "a \<le> b"
  obtain u where u: "u = fst (random_random g)" by simp
  have r: "0 \<le> u" "u \<le> 1" using random_random_range[of g] u by simp_all
  have "0 \<le> (b - a) * u" using ab r by simp
  moreover have "(b - a) * u \<le> (b - a) * 1" using ab r by (intro mult_left_mono) simp_all
  ultimately show ?thesis by (simp add: random_uniform_def split_beta u[symmetric])
qed

lemma randbelow_less: "0 < n \<Longrightarrow> fst (randbelow n g) < n"
  by (simp add: randbelow_def py_draw_def)

lemma random_randint_range:
  "a \<le> b \<Longrightarrow> a \<le> fst (random_randint a b g) \<and> fst (random_randint a b g) \<le> b"
  using randbelow_less[of "nat (b - a + 1)" g]
  by (simp add: random_randint_def split_beta)

lemma random_choice_mem: "xs \<noteq> [] \<Longrightarrow> fst (random_choice xs g) \<in> set xs"
  using randbelow_less[of "length xs" g] by (simp add: random_choice_def split_beta)

lemma length_np_random_rand: "length (fst (np_random_rand n g)) = n"
  by (induction n arbitrary: g) (simp_all add: split_beta)

lemma np_random_rand_range:
  "x \<in> set (fst (np_random_rand n g)) \<Longrightarrow> 0 \<le> x \<and> x < 1"
  using unit_float_range by (induction n arbitrary: g) (auto simp: split_beta)

lemma length_add_at: "length (add_at v i a) = length v"
  by (simp add: add_at_def)

lemma length_add_triad: "length (add_triad rt tri v) = length v"
  by (induction tri arbitrary: v) (simp_all add: length_add_at)

lemma length_chord_vec: "length (fst (chord_vec rt is_maj g)) = 12"
  by (simp add: chord_vec_def Let_def split_beta length_add_at length_add_triad)

lemma length_vadd: "length (vadd u v) = min (length u) (length v)"
  by (simp add: vadd_def)

lemma length_smul: "length (smul c v) = length v"
  by (simp add: smul_def)

lemma length_chord_loop:
  "length mix = 12 \<Longrightarrow> length (fst (chord_loop n r is_maj mix g)) = 12"
  by (induction n arbitrary: mix g)
     (simp_all add: split_beta length_vadd length_smul length_chord_vec)

lemma np_roll_shift_less: "v \<noteq> [] \<Longrightarrow> nat ((- k) mod int (length v)) < length v"
  by (simp add: nat_less_iff)

lemma length_np_roll: "length (np_roll v k) = length v"
proof (cases "v = []")
  case True
  then show ?thesis by (simp add: np_roll_def)
next
  case False
  then show ?thesis using np_roll_shift_less[OF False, of k] by (simp add: np_roll_def Let_def)
qed

lemma maj_t_eq: "maj_t = maj" by (simp add: maj_t_def maj_def)
lemma min_t_eq: "min_t = minr" by (simp add: min_t_def minr_def)

lemma synth_base:
  "rot (if cls mod 2 = 0 then maj_t else min_t) (cls div 2) = rotatedProfile cls"
  by (simp add: rotatedProfile_def Let_def maj_t_eq min_t_eq)

lemma length_synth_premix: "length (fst (synth_premix cls g)) = 12"
  by (simp add: synth_premix_def Let_def split_beta synth_base length_vadd length_smul
      length_chord_loop length_rotatedProfile length_np_roll length_np_random_rand)

lemma length_synth_clipped: "length (fst (synth_clipped cls g)) = 12"
  by (simp add: synth_clipped_def split_beta np_clip_min_def length_synth_premix)

lemma clipped_ge: "x \<in> set (fst (synth_clipped cls g)) \<Longrightarrow> 0.000001 \<le> x"
  by (auto simp: synth_clipped_def split_beta np_clip_min_def)

lemma sum_list_ge_length:
  "(\<And>x. x \<in> set v \<Longrightarrow> lo \<le> x) \<Longrightarrow> real (length v) * lo \<le> sum_list v"
  by (induction v) (simp_all add: algebra_simps add_mono)

lemma clipped_sum_ge: "12 * 0.000001 \<le> sum_list (fst (synth_clipped cls g))"
  using sum_list_ge_length[of "fst (synth_clipped cls g)" "0.000001"] clipped_ge
  by (simp add: length_synth_clipped)

lemma synth_sample_eq:
  "fst (synth_sample cls g)
     = vdiv (fst (synth_clipped cls g)) (sum_list (fst (synth_clipped cls g)))"
  by (simp add: synth_sample_def split_beta)

text \<open>
  Claim C10.  The division of line 21 never divides by zero: whatever the key class and
  the state of the random sources, the clipped array has 12 entries, each at least
  \<open>10\<^sup>-\<^sup>6\<close>, so its sum is at least \<open>12 * 10\<^sup>-\<^sup>6\<close>, which is positive, and every entry
  of the returned array is strictly positive.  (The entries are reals here, so each is
  finite.)
\<close>

theorem renormalisation_divisor_positive:
  "length (fst (synth_clipped cls g)) = 12 \<and>
   (\<forall>x \<in> set (fst (synth_clipped cls g)). 0.000001 \<le> x) \<and>
   12 * 0.000001 \<le> sum_list (fst (synth_clipped cls g)) \<and>
   0 < sum_list (fst (synth_clipped cls g)) \<and>
   fst (synth_sample cls g)
     = map (\<lambda>x. x / sum_list (fst (synth_clipped cls g))) (fst (synth_clipped cls g)) \<and>
   (\<forall>x \<in> set (fst (synth_sample cls g)). 0 < x)"
proof -
  have s: "0 < sum_list (fst (synth_clipped cls g))"
    using clipped_sum_ge[of cls g] by simp
  have "0 < x" if xin: "x \<in> set (fst (synth_sample cls g))" for x
  proof -
    obtain y where y: "y \<in> set (fst (synth_clipped cls g))"
      and x: "x = y / sum_list (fst (synth_clipped cls g))"
      using xin unfolding synth_sample_eq vdiv_def set_map by blast
    have "0 < y" using clipped_ge[OF y] by simp
    then show ?thesis using s x by simp
  qed
  then show ?thesis
    using s clipped_sum_ge[of cls g] clipped_ge[of _ cls g]
    by (simp add: length_synth_clipped synth_sample_eq vdiv_def)
qed

theorem renormalisation_divisor_positive_witness:
  "length (fst (synth_clipped 0 zero_rng)) = 12 \<and>
   12 * 0.000001 \<le> sum_list (fst (synth_clipped 0 zero_rng)) \<and>
   0 < sum_list (fst (synth_clipped 0 zero_rng)) \<and>
   0.000001 \<le> fst (synth_clipped 0 zero_rng) ! 0 \<and>
   0 < fst (synth_sample 0 zero_rng) ! 0"
proof -
  note t = renormalisation_divisor_positive[of 0 zero_rng]
  have "length (fst (synth_sample 0 zero_rng)) = 12"
    using t by simp
  then have "fst (synth_sample 0 zero_rng) ! 0 \<in> set (fst (synth_sample 0 zero_rng))"
    by (intro nth_mem) simp
  moreover have "fst (synth_clipped 0 zero_rng) ! 0 \<in> set (fst (synth_clipped 0 zero_rng))"
    using t by (intro nth_mem) simp
  ultimately show ?thesis using t by blast
qed

section \<open>Bounds on the entries of an array\<close>

lemma entries_inI: "(\<And>x. x \<in> set v \<Longrightarrow> lo \<le> x \<and> x \<le> hi) \<Longrightarrow> entries_in lo hi v"
  by (simp add: entries_in_def list_all_iff)

lemma entries_inD: "entries_in lo hi v \<Longrightarrow> x \<in> set v \<Longrightarrow> lo \<le> x \<and> x \<le> hi"
  by (simp add: entries_in_def list_all_iff)

lemma entries_in_mono: "entries_in lo hi v \<Longrightarrow> lo' \<le> lo \<Longrightarrow> hi \<le> hi' \<Longrightarrow> entries_in lo' hi' v"
  by (force intro: entries_inI dest: entries_inD)

lemma entries_in_vadd:
  assumes "entries_in a b u" "entries_in c d v"
  shows "entries_in (a + c) (b + d) (vadd u v)"
proof (rule entries_inI)
  fix x assume "x \<in> set (vadd u v)"
  then obtain p q where "p \<in> set u" "q \<in> set v" "x = p + q"
    by (auto simp: vadd_def dest: set_zip_leftD set_zip_rightD)
  then show "a + c \<le> x \<and> x \<le> b + d"
    using entries_inD[OF assms(1), of p] entries_inD[OF assms(2), of q] by simp
qed

lemma entries_in_smul:
  assumes "entries_in a b v" "0 \<le> a" "0 \<le> ulo" "ulo \<le> u" "u \<le> uhi"
  shows "entries_in (ulo * a) (uhi * b) (smul u v)"
proof (rule entries_inI)
  fix x assume "x \<in> set (smul u v)"
  then obtain p where p: "p \<in> set v" "x = u * p" by (auto simp: smul_def)
  have r: "a \<le> p" "p \<le> b" using entries_inD[OF assms(1) p(1)] by simp_all
  have "ulo * a \<le> u * p" using assms r by (intro mult_mono) simp_all
  moreover have "u * p \<le> uhi * b" using assms r by (intro mult_mono) simp_all
  ultimately show "ulo * a \<le> x \<and> x \<le> uhi * b" using p by simp
qed

lemma set_rot: "set (rot v r) = set v"
proof -
  have "set (rot v r) = set (take (nat (r mod 12)) v @ drop (nat (r mod 12)) v)"
    unfolding rot_def Let_def set_append by (rule Un_commute)
  then show ?thesis by simp
qed

lemma set_np_roll: "set (np_roll v k) = set v"
proof (cases "v = []")
  case True
  then show ?thesis by (simp add: np_roll_def)
next
  case False
  define s where "s = nat ((- k) mod int (length v))"
  have "set (np_roll v k) = set (take s v @ drop s v)"
    using False unfolding np_roll_def Let_def s_def set_append by (simp add: Un_commute)
  then show ?thesis by simp
qed

lemma entries_in_rot: "entries_in a b v \<Longrightarrow> entries_in a b (rot v r)"
  by (simp add: entries_in_def list_all_iff set_rot)

lemma entries_in_np_roll: "entries_in a b v \<Longrightarrow> entries_in a b (np_roll v k)"
  by (simp add: entries_in_def list_all_iff set_np_roll)

lemma entries_in_add_at:
  assumes "entries_in lo hi v" "0 \<le> a"
  shows "entries_in lo (hi + a) (add_at v i a)"
proof (rule entries_inI)
  fix x assume "x \<in> set (add_at v i a)"
  then have "x = v ! i + a \<and> i < length v \<or> x \<in> set v"
  proof (cases "i < length v")
    case True
    assume "x \<in> set (add_at v i a)"
    then have "x \<in> insert (v ! i + a) (set v)"
      unfolding add_at_def using set_update_subset_insert by fast
    then show ?thesis using True by auto
  next
    case False
    assume "x \<in> set (add_at v i a)"
    then show ?thesis using False by (simp add: add_at_def list_update_beyond)
  qed
  then show "lo \<le> x \<and> x \<le> hi + a"
    using assms entries_inD[OF assms(1), of x] entries_inD[OF assms(1), of "v ! i"]
    by (auto simp: add_increasing2)
qed

lemma entries_in_add_triad:
  "entries_in lo hi v \<Longrightarrow> entries_in lo (hi + real (length tri)) (add_triad rt tri v)"
proof (induction tri arbitrary: v hi)
  case Nil
  then show ?case by simp
next
  case (Cons s ss)
  have "entries_in lo (hi + 1) (add_at v (nat ((rt + s) mod 12)) 1)"
    using Cons.prems by (rule entries_in_add_at) simp
  then have "entries_in lo (hi + 1 + real (length ss)) (add_triad rt (s # ss) v)"
    using Cons.IH by simp
  then show ?case by (rule entries_in_mono) simp_all
qed

lemma degrees_length:
  "tri \<in> set (if is_maj then maj_degrees else min_degrees) \<Longrightarrow> length tri = 3"
  by (auto simp: maj_degrees_def min_degrees_def split: if_splits)

lemma degrees_nonempty: "(if is_maj then maj_degrees else min_degrees) \<noteq> []"
  by (simp add: maj_degrees_def min_degrees_def)

lemma entries_in_zeros: "entries_in 0 0 (replicate n 0)"
  by (simp add: entries_in_def list_all_iff)

lemma entries_in_chord_vec: "entries_in 0 4.1 (fst (chord_vec rt is_maj g))"
proof -
  define degs where "degs = (if is_maj then maj_degrees else min_degrees)"
  define tri where "tri = fst (random_choice degs g)"
  have "tri \<in> set degs" unfolding tri_def degs_def
    by (rule random_choice_mem) (rule degrees_nonempty)
  then have "length tri = 3" unfolding degs_def by (rule degrees_length)
  then have v1: "entries_in 0 3 (add_triad rt tri (replicate 12 0))"
    using entries_in_add_triad[OF entries_in_zeros, where tri = tri and rt = rt and n1 = 12] by simp
  define v2 where "v2 = (if fst (random_random (snd (random_choice degs g))) < 0.35
     then add_at (add_triad rt tri (replicate 12 0)) (nat ((rt + (if is_maj then 11 else 10)) mod 12)) 0.7
     else add_triad rt tri (replicate 12 0))"
  have v2: "entries_in 0 3.7 v2"
    unfolding v2_def using entries_in_add_at[OF v1, of "0.7"] entries_in_mono[OF v1, of 0 "3.7"] by simp
  define v3 where "v3 = (if fst (random_random (snd (random_random (snd (random_choice degs g))))) < 0.25
     then add_at v2 (nat ((rt + 5) mod 12)) 0.4 else v2)"
  have v3: "entries_in 0 4.1 v3"
    unfolding v3_def using entries_in_add_at[OF v2, of "0.4"] entries_in_mono[OF v2, of 0 "4.1"] by simp
  have "fst (chord_vec rt is_maj g) = v3"
    by (simp add: chord_vec_def Let_def split_beta v3_def v2_def tri_def degs_def)
  then show ?thesis using v3 by simp
qed

lemma entries_in_chord_loop:
  "entries_in lo hi mix \<Longrightarrow>
     entries_in lo (hi + real n * 2.87) (fst (chord_loop n r is_maj mix g))"
proof (induction n arbitrary: mix g hi)
  case 0
  then show ?case by simp
next
  case (Suc n)
  have "entries_in (0.7 * 0) (0.7 * 4.1) (smul 0.7 (fst (chord_vec r is_maj g)))"
    using entries_in_chord_vec by (rule entries_in_smul) simp_all
  then have "entries_in (lo + 0) (hi + 2.87) (vadd mix (smul 0.7 (fst (chord_vec r is_maj g))))"
    using Suc.prems by (intro entries_in_vadd) simp_all
  then have "entries_in lo (hi + 2.87 + real n * 2.87)
      (fst (chord_loop n r is_maj (vadd mix (smul 0.7 (fst (chord_vec r is_maj g)))) (snd (chord_vec r is_maj g))))"
    using Suc.IH by simp
  then have "entries_in lo (hi + real (Suc n) * 2.87)
      (fst (chord_loop n r is_maj (vadd mix (smul 0.7 (fst (chord_vec r is_maj g)))) (snd (chord_vec r is_maj g))))"
    by (rule entries_in_mono) (simp_all add: algebra_simps)
  then show ?case by (simp add: split_beta)
qed

section \<open>The floor and the sum of a sample\<close>

lemma norm_maj_lit_bounds: "12 \<le> linalg_norm maj_lit \<and> linalg_norm maj_lit \<le> 13"
proof -
  have e: "linalg_norm maj_lit = sqrt 164.6799"
    using sumsq_maj_lit by (simp add: linalg_norm_def sumsq_def)
  have "12 \<le> sqrt 164.6799" by (rule real_le_rsqrt) simp
  moreover have "sqrt 164.6799 \<le> 13" by (rule real_le_lsqrt) simp_all
  ultimately show ?thesis by (simp only: e)
qed

lemma norm_min_lit_bounds: "13 \<le> linalg_norm min_lit \<and> linalg_norm min_lit \<le> 14"
proof -
  have e: "linalg_norm min_lit = sqrt 181.1021"
    using sumsq_min_lit by (simp add: linalg_norm_def sumsq_def)
  have "13 \<le> sqrt 181.1021" by (rule real_le_rsqrt) simp
  moreover have "sqrt 181.1021 \<le> 14" by (rule real_le_lsqrt) simp_all
  ultimately show ?thesis by (simp only: e)
qed

lemma entries_in_vdiv:
  assumes "entries_in a b v" "0 < c" "lo * c \<le> a" "b \<le> hi * c"
  shows "entries_in lo hi (vdiv v c)"
proof (rule entries_inI)
  fix x assume "x \<in> set (vdiv v c)"
  then obtain p where p: "p \<in> set v" "x = p / c" by (auto simp: vdiv_def)
  have "a \<le> p" "p \<le> b" using entries_inD[OF assms(1) p(1)] by simp_all
  then have "lo * c \<le> p" "p \<le> hi * c" using assms by simp_all
  then show "lo \<le> x \<and> x \<le> hi"
    using assms(2) p(2) by (simp add: pos_le_divide_eq pos_divide_le_eq)
qed

lemma entries_in_maj_lit: "entries_in 2.23 6.35 maj_lit"
  by (simp add: entries_in_def maj_lit_def)

lemma entries_in_min_lit: "entries_in 2.54 6.33 min_lit"
  by (simp add: entries_in_def min_lit_def)

lemma entries_in_maj: "entries_in 0.17 0.53 maj"
  unfolding maj_def using entries_in_maj_lit linalg_norm_maj_lit_pos
proof (rule entries_in_vdiv)
  show "0.17 * linalg_norm maj_lit \<le> 2.23" using norm_maj_lit_bounds by simp
  show "6.35 \<le> 0.53 * linalg_norm maj_lit" using norm_maj_lit_bounds by simp
qed

lemma entries_in_minr: "entries_in 0.17 0.53 minr"
  unfolding minr_def using entries_in_min_lit linalg_norm_min_lit_pos
proof (rule entries_in_vdiv)
  show "0.17 * linalg_norm min_lit \<le> 2.54" using norm_min_lit_bounds by simp
  show "6.33 \<le> 0.53 * linalg_norm min_lit" using norm_min_lit_bounds by simp
qed

lemma entries_in_rotatedProfile: "entries_in 0.17 0.53 (rotatedProfile cls)"
proof (cases "cls mod 2 = 0")
  case True
  then have "rotatedProfile cls = rot maj (cls div 2)" by (simp add: rotatedProfile_def)
  then show ?thesis by (simp only: entries_in_rot[OF entries_in_maj])
next
  case False
  then have "rotatedProfile cls = rot minr (cls div 2)" by (simp add: rotatedProfile_def)
  then show ?thesis by (simp only: entries_in_rot[OF entries_in_minr])
qed

lemma entries_in_noise: "entries_in 0 1 (fst (np_random_rand n g))"
  using np_random_rand_range by (intro entries_inI) force

lemma entries_in_synth_premix: "entries_in 0.16 9.4 (fst (synth_premix cls g))"
proof -
  define base where "base = rotatedProfile cls"
  define u where "u = fst (random_uniform 0.8 1.2 g)"
  define g1 where "g1 = snd (random_uniform 0.8 1.2 g)"
  define n where "n = nat (fst (random_randint 1 3 g1))"
  define g2 where "g2 = snd (random_randint 1 3 g1)"
  define mix1 where "mix1 = fst (chord_loop n (cls div 2) (cls mod 2 = 0) (smul u base) g2)"
  define g3 where "g3 = snd (chord_loop n (cls div 2) (cls mod 2 = 0) (smul u base) g2)"
  define k where "k = fst (random_choice [- 2, - 1, 1, 2 :: int] g3)"
  define g4 where "g4 = snd (random_choice [- 2, - 1, 1, 2 :: int] g3)"
  define noise where "noise = fst (np_random_rand 12 g4)"
  have eq: "fst (synth_premix cls g)
      = vadd (vadd mix1 (smul 0.15 (np_roll base k))) (smul 0.05 noise)"
    by (simp add: synth_premix_def Let_def split_beta synth_base base_def u_def g1_def n_def
        g2_def mix1_def g3_def k_def g4_def noise_def)
  have b: "entries_in 0.17 0.53 base" unfolding base_def by (rule entries_in_rotatedProfile)
  have u: "0.8 \<le> u" "u \<le> 1.2" using random_uniform_range[of "0.8" "1.2" g] by (simp_all add: u_def)
  have n: "n \<le> 3" using random_randint_range[of 1 3 g1] by (simp add: n_def nat_le_iff)
  have "entries_in (0.8 * 0.17) (1.2 * 0.53) (smul u base)"
    using b u by (intro entries_in_smul) simp_all
  then have "entries_in (0.8 * 0.17) (1.2 * 0.53 + real n * 2.87) mix1"
    unfolding mix1_def by (rule entries_in_chord_loop)
  then have m1: "entries_in 0.136 9.246 mix1"
    by (rule entries_in_mono) (use n in simp_all)
  have sm: "entries_in (0.15 * 0.17) (0.15 * 0.53) (smul 0.15 (np_roll base k))"
    using entries_in_np_roll[OF b] by (rule entries_in_smul) simp_all
  have m2: "entries_in (0.136 + 0.15 * 0.17) (9.246 + 0.15 * 0.53)
      (vadd mix1 (smul 0.15 (np_roll base k)))"
    using m1 sm by (rule entries_in_vadd)
  have nz: "entries_in (0.05 * 0) (0.05 * 1) (smul 0.05 noise)"
    unfolding noise_def using entries_in_noise by (rule entries_in_smul) simp_all
  have "entries_in (0.136 + 0.15 * 0.17 + 0.05 * 0) (9.246 + 0.15 * 0.53 + 0.05 * 1)
      (fst (synth_premix cls g))"
    unfolding eq using m2 nz by (rule entries_in_vadd)
  then show ?thesis by (rule entries_in_mono) simp_all
qed

lemma entries_in_synth_clipped: "entries_in 0.16 9.4 (fst (synth_clipped cls g))"
proof (rule entries_inI)
  fix x assume "x \<in> set (fst (synth_clipped cls g))"
  then obtain y where y: "y \<in> set (fst (synth_premix cls g))" "x = max 0.000001 y"
    by (auto simp: synth_clipped_def split_beta np_clip_min_def)
  then show "0.16 \<le> x \<and> x \<le> 9.4"
    using entries_inD[OF entries_in_synth_premix y(1)] by simp
qed

lemma sum_list_le_length:
  "(\<And>x. x \<in> set v \<Longrightarrow> x \<le> hi) \<Longrightarrow> sum_list v \<le> real (length v) * hi"
  by (induction v) (simp_all add: algebra_simps add_mono)

lemma clipped_sum_bounds:
  "0 < sum_list (fst (synth_clipped cls g)) \<and> sum_list (fst (synth_clipped cls g)) \<le> 112.8"
proof -
  have "sum_list (fst (synth_clipped cls g)) \<le> real (length (fst (synth_clipped cls g))) * 9.4"
    using entries_inD[OF entries_in_synth_clipped] by (intro sum_list_le_length) simp
  then show ?thesis using clipped_sum_ge[of cls g] by (simp add: length_synth_clipped)
qed

text \<open>
  Claim C5.  For every key class and every state of the random sources, the array that
  \<open>synth_sample\<close> returns has 12 entries, each at least the floor constant \<open>10\<^sup>-\<^sup>6\<close>, and
  the entries sum to 1.  (Over the reals the sum is exactly 1; rounding is not modelled.)
  The lower bound does not follow from the clipping alone, since the division by the sum
  can shrink a clipped entry: it holds because every entry before the division is at
  least 0.16 and the sum is at most 112.8.
\<close>

theorem synth_sample_floor_and_sum:
  "length (fst (synth_sample cls g)) = 12 \<and>
   (\<forall>x \<in> set (fst (synth_sample cls g)). 0.000001 \<le> x) \<and>
   sum_list (fst (synth_sample cls g)) = 1"
proof -
  define S where "S = sum_list (fst (synth_clipped cls g))"
  have S: "0 < S" "S \<le> 112.8" using clipped_sum_bounds[of cls g] by (simp_all add: S_def)
  have "0.000001 \<le> x" if xin: "x \<in> set (fst (synth_sample cls g))" for x
  proof -
    obtain y where y: "y \<in> set (fst (synth_clipped cls g))" and x: "x = y / S"
      using xin unfolding synth_sample_eq vdiv_def set_map S_def by blast
    have "0.16 \<le> y" using entries_inD[OF entries_in_synth_clipped y] by simp
    then have "0.000001 * S \<le> y" using S by simp
    then show ?thesis using S x by (simp add: pos_le_divide_eq)
  qed
  moreover have "sum_list (fst (synth_sample cls g)) = 1"
    using S by (simp add: synth_sample_eq sum_list_vdiv S_def)
  ultimately show ?thesis by (simp add: synth_sample_eq vdiv_def length_synth_clipped)
qed

theorem synth_sample_floor_and_sum_witness:
  "length (fst (synth_sample 5 zero_rng)) = 12 \<and>
   0.000001 \<le> fst (synth_sample 5 zero_rng) ! 0 \<and>
   0.000001 \<le> fst (synth_sample 5 zero_rng) ! 11 \<and>
   sum_list (fst (synth_sample 5 zero_rng)) = 1"
proof -
  note t = synth_sample_floor_and_sum[of 5 zero_rng]
  have "fst (synth_sample 5 zero_rng) ! 0 \<in> set (fst (synth_sample 5 zero_rng))"
    "fst (synth_sample 5 zero_rng) ! 11 \<in> set (fst (synth_sample 5 zero_rng))"
    using t by (simp_all only: nth_mem) 
  then show ?thesis using t by blast
qed

section \<open>The chord loop in closed form\<close>

lemma nth_vadd: "k < length u \<Longrightarrow> k < length v \<Longrightarrow> vadd u v ! k = u ! k + v ! k"
  by (simp add: vadd_def)

lemma nth_smul: "k < length v \<Longrightarrow> smul c v ! k = c * v ! k"
  by (simp add: smul_def)

lemma nth_add_at:
  "k < length v \<Longrightarrow> add_at v i a ! k = v ! k + (if k = i then a else 0)"
  by (simp add: add_at_def nth_list_update)

lemma nth_add_triad:
  "k < length v \<Longrightarrow>
     add_triad rt tri v ! k
       = v ! k + real (length (filter (\<lambda>s. nat ((rt + s) mod 12) = k) tri))"
proof (induction tri arbitrary: v)
  case Nil
  then show ?case by simp
next
  case (Cons s ss)
  then show ?case by (simp add: length_add_at nth_add_at)
qed

lemma chord_vec_nth:
  assumes "k < 12"
  shows "fst (chord_vec rt is_maj h) ! k
    = real (length (filter (\<lambda>s. nat ((rt + s) mod 12) = k) (triad_draw is_maj h)))
      + (if lead_draw is_maj h < 0.35 \<and> k = nat ((rt + (if is_maj then 11 else 10)) mod 12)
         then 0.7 else 0)
      + (if sub_draw is_maj h < 0.25 \<and> k = nat ((rt + 5) mod 12) then 0.4 else 0)"
  using assms
  by (simp add: chord_vec_def Let_def split_beta triad_draw_def lead_draw_def sub_draw_def
      nth_add_at nth_add_triad length_add_at length_add_triad)

lemma chord_rng_Suc: "chord_rng r is_maj (snd (chord_vec r is_maj g)) i = chord_rng r is_maj g (Suc i)"
  by (induction i) (simp_all add: chord_rng_def)

lemma chord_loop_closed:
  "length mix = 12 \<Longrightarrow> k < 12 \<Longrightarrow>
     fst (chord_loop n r is_maj mix g) ! k
       = mix ! k + (\<Sum>i<n. 0.7 * fst (chord_vec r is_maj (chord_rng r is_maj g i)) ! k)"
proof (induction n arbitrary: mix g)
  case 0
  then show ?case by simp
next
  case (Suc n)
  define c where "c = fst (chord_vec r is_maj g)"
  define g' where "g' = snd (chord_vec r is_maj g)"
  have len: "length (vadd mix (smul 0.7 c)) = 12"
    using Suc.prems by (simp add: length_vadd length_smul c_def length_chord_vec)
  have "fst (chord_loop (Suc n) r is_maj mix g) ! k
      = fst (chord_loop n r is_maj (vadd mix (smul 0.7 c)) g') ! k"
    by (simp add: split_beta c_def g'_def)
  also have "\<dots> = vadd mix (smul 0.7 c) ! k
      + (\<Sum>i<n. 0.7 * fst (chord_vec r is_maj (chord_rng r is_maj g' i)) ! k)"
    using len Suc.prems(2) by (rule Suc.IH)
  also have "vadd mix (smul 0.7 c) ! k = mix ! k + 0.7 * c ! k"
    using Suc.prems by (simp add: nth_vadd nth_smul length_smul c_def length_chord_vec)
  also have "(\<Sum>i<n. 0.7 * fst (chord_vec r is_maj (chord_rng r is_maj g' i)) ! k)
      = (\<Sum>i<n. 0.7 * fst (chord_vec r is_maj (chord_rng r is_maj g (Suc i))) ! k)"
    by (simp add: g'_def chord_rng_Suc)
  finally have e: "fst (chord_loop (Suc n) r is_maj mix g) ! k
      = mix ! k + 0.7 * c ! k
        + (\<Sum>i<n. 0.7 * fst (chord_vec r is_maj (chord_rng r is_maj g (Suc i))) ! k)" .
  have "(\<Sum>i<Suc n. 0.7 * fst (chord_vec r is_maj (chord_rng r is_maj g i)) ! k)
      = 0.7 * fst (chord_vec r is_maj (chord_rng r is_maj g 0)) ! k
        + (\<Sum>i<n. 0.7 * fst (chord_vec r is_maj (chord_rng r is_maj g (Suc i))) ! k)"
    by (rule sum.lessThan_Suc_shift)
  moreover have "chord_rng r is_maj g 0 = g" by (simp add: chord_rng_def)
  ultimately show ?case using e by (simp only: c_def add.assoc)
qed

lemma chord_loop_rng: "snd (chord_loop n r is_maj mix g) = chord_rng r is_maj g n"
proof (induction n arbitrary: mix g)
  case 0
  then show ?case by (simp add: chord_rng_def)
next
  case (Suc n)
  then show ?case by (simp add: split_beta chord_rng_Suc)
qed

lemma n_chords_range: "1 \<le> n_chords g \<and> n_chords g \<le> 3"
  using random_randint_range[of 1 3 "snd (random_uniform 0.8 1.2 g)"]
  by (simp add: n_chords_def nat_le_iff le_nat_iff)

lemma length_after_loop: "length (after_loop cls g) = 12"
  by (simp add: after_loop_def Let_def split_beta synth_base length_vadd length_smul
      length_np_roll length_rotatedProfile length_np_random_rand)

lemma synth_premix_split:
  "fst (synth_premix cls g)
     = vadd (fst (chord_loop (n_chords g) (cls div 2) (cls mod 2 = 0)
                    (smul (fst (random_uniform 0.8 1.2 g)) (rotatedProfile cls)) (chords_rng g)))
            (after_loop cls g)"
proof -
  define L where "L = chord_loop (n_chords g) (cls div 2) (cls mod 2 = 0)
      (smul (fst (random_uniform 0.8 1.2 g)) (rotatedProfile cls)) (chords_rng g)"
  have s: "snd L = chord_rng (cls div 2) (cls mod 2 = 0) (chords_rng g) (n_chords g)"
    unfolding L_def by (rule chord_loop_rng)
  have l: "length (fst L) = 12" unfolding L_def
    by (rule length_chord_loop) (simp add: length_smul length_rotatedProfile)
  have "fst (synth_premix cls g) =
      vadd (vadd (fst L) (smul 0.15 (np_roll (rotatedProfile cls) (fst (random_choice [- 2, - 1, 1, 2] (snd L))))))
           (smul 0.05 (fst (np_random_rand 12 (snd (random_choice [- 2, - 1, 1, 2 :: int] (snd L))))))"
    by (simp add: synth_premix_def Let_def split_beta synth_base L_def n_chords_def chords_rng_def)
  also have "\<dots> = vadd (fst L) (after_loop cls g)"
    unfolding after_loop_def Let_def split_beta synth_base s[symmetric]
    by (rule nth_equalityI)
       (simp_all add: length_vadd length_smul l length_np_roll length_rotatedProfile
         length_np_random_rand nth_vadd nth_smul)
  finally show ?thesis by (simp add: L_def)
qed

section \<open>Two concrete random sources\<close>

lemma py_draw_zero: "py_draw zero_rng = (0, zero_rng)"
  by (simp add: py_draw_def zero_rng_def)

lemma np_draw_zero: "np_draw zero_rng = (0, zero_rng)"
  by (simp add: np_draw_def zero_rng_def)

lemma random_random_zero: "random_random zero_rng = (0, zero_rng)"
  by (simp add: random_random_def py_draw_zero unit_float_0)

lemma random_choice_zero: "random_choice xs zero_rng = (xs ! 0, zero_rng)"
  by (simp add: random_choice_def randbelow_def py_draw_zero)

lemma chord_vec_zero_state: "snd (chord_vec rt is_maj zero_rng) = zero_rng"
  by (simp add: chord_vec_def Let_def random_choice_zero random_random_zero)

lemma chord_rng_zero: "chord_rng r is_maj zero_rng i = zero_rng"
  by (induction i) (simp_all add: chord_rng_def chord_vec_zero_state)

lemma np_random_rand_zero: "np_random_rand n zero_rng = (replicate n 0, zero_rng)"
  by (induction n) (simp_all add: np_draw_zero unit_float_0)

lemma draws_zero:
  "triad_draw True zero_rng = [0, 4, 7]" "lead_draw True zero_rng = 0" "sub_draw True zero_rng = 0"
  by (simp_all add: triad_draw_def lead_draw_def sub_draw_def random_choice_zero
      random_random_zero maj_degrees_def)

lemma three_chords_uniform:
  "random_uniform 0.8 1.2 three_chords_rng
     = (0.8, \<lparr>py_tape = (\<lambda>n. if n = 0 then 2 else 0), np_tape = (\<lambda>n. 0)\<rparr>)"
  by (simp add: random_uniform_def random_random_def py_draw_def three_chords_rng_def
      unit_float_0)

lemma three_chords_randint:
  "random_randint 1 3 \<lparr>py_tape = (\<lambda>n. if n = 0 then 2 else 0), np_tape = (\<lambda>n. 0)\<rparr>
     = (3, zero_rng)"
  by (simp add: random_randint_def randbelow_def py_draw_def zero_rng_def)

lemma three_chords_loop: "n_chords three_chords_rng = 3" "chords_rng three_chords_rng = zero_rng"
  by (simp_all only: n_chords_def chords_rng_def three_chords_uniform three_chords_randint
      fst_conv snd_conv nat_numeral)

lemma np_roll_nth:
  assumes "i < length v"
  shows "np_roll v k ! i = v ! nat ((int i - k) mod int (length v))"
proof -
  have ne: "v \<noteq> []" using assms by auto
  define s where "s = nat ((- k) mod int (length v))"
  have s: "s < length v" unfolding s_def using ne by (rule np_roll_shift_less)
  have "np_roll v k = rotate s v"
    using ne s by (simp add: np_roll_def Let_def s_def rotate_drop_take)
  then have "np_roll v k ! i = v ! ((s + i) mod length v)"
    using assms by (simp add: nth_rotate)
  moreover have "int ((s + i) mod length v) = (int i - k) mod int (length v)"
    using ne by (simp add: s_def zmod_int mod_simps)
  ultimately show ?thesis by (metis nat_int)
qed

lemma after_loop_three:
  "after_loop 0 three_chords_rng ! 11 = 0.15 * maj_t ! 1"
  "after_loop 0 three_chords_rng ! 5 = 0.15 * maj_t ! 7"
proof -
  have "after_loop 0 three_chords_rng
      = vadd (smul 0.15 (np_roll maj_t (- 2))) (smul 0.05 (replicate 12 0))"
    by (simp add: after_loop_def Let_def three_chords_loop chord_rng_zero random_choice_zero
        np_random_rand_zero rot_def)
  moreover have "length maj_t = 12" by (simp add: maj_t_eq length_maj)
  ultimately show "after_loop 0 three_chords_rng ! 11 = 0.15 * maj_t ! 1"
    "after_loop 0 three_chords_rng ! 5 = 0.15 * maj_t ! 7"
    by (simp_all add: nth_vadd nth_smul length_smul length_np_roll np_roll_nth)
qed

lemma synth_premix_nth:
  assumes k: "k < 12"
  shows "fst (synth_premix cls g) ! k
    = fst (random_uniform 0.8 1.2 g) * rotatedProfile cls ! k
      + (\<Sum>i<n_chords g.
           0.7 * fst (chord_vec (cls div 2) (cls mod 2 = 0)
                        (chord_rng (cls div 2) (cls mod 2 = 0) (chords_rng g) i)) ! k)
      + after_loop cls g ! k"
proof -
  define mix0 where "mix0 = smul (fst (random_uniform 0.8 1.2 g)) (rotatedProfile cls)"
  have l0: "length mix0 = 12" by (simp add: mix0_def length_smul length_rotatedProfile)
  have "fst (synth_premix cls g)
      = vadd (fst (chord_loop (n_chords g) (cls div 2) (cls mod 2 = 0) mix0 (chords_rng g)))
          (after_loop cls g)"
    unfolding mix0_def by (rule synth_premix_split)
  then have "fst (synth_premix cls g) ! k
      = fst (chord_loop (n_chords g) (cls div 2) (cls mod 2 = 0) mix0 (chords_rng g)) ! k
        + after_loop cls g ! k"
    using k by (simp add: nth_vadd length_chord_loop l0 length_after_loop)
  moreover have "mix0 ! k = fst (random_uniform 0.8 1.2 g) * rotatedProfile cls ! k"
    using k by (simp add: mix0_def nth_smul length_rotatedProfile)
  ultimately show ?thesis using chord_loop_closed[OF l0 k] by simp
qed

section \<open>The decisions of the chord loop\<close>

lemma chord_zero_values:
  "fst (chord_vec 0 True zero_rng) ! 11 = 0.7" "fst (chord_vec 0 True zero_rng) ! 5 = 0.4"
  by (simp_all add: chord_vec_nth draws_zero)

lemma rotatedProfile_0: "rotatedProfile 0 = maj_t"
  by (simp add: rotatedProfile_def rot_def maj_t_eq)

lemma three_chords_sum:
  "(\<Sum>i<n_chords three_chords_rng.
       0.7 * fst (chord_vec (0 div 2) (0 mod 2 = (0::int))
                    (chord_rng (0 div 2) (0 mod 2 = (0::int)) (chords_rng three_chords_rng) i)) ! k)
     = 3 * (0.7 * fst (chord_vec 0 True zero_rng) ! k)"
  by (simp add: three_chords_loop chord_rng_zero)

text \<open>
  Claim C3 fails on the code.  At key class 0 (C major), in the state
  \<open>three_chords_rng\<close>, the loop runs three times; each time the triad is \<open>[0,4,7]\<close>, which
  touches neither pitch class 11 nor pitch class 5, and both tests succeed; the noise is
  zero.  Beyond the scaled profile and the smear, the array before clipping holds
  \<open>3 * (0.7 * 0.7) = 1.47\<close> at the leading-tone pitch class 11 and
  \<open>3 * (0.7 * 0.4) = 0.84\<close> at pitch class 5: three decisions of each kind, of magnitudes
  0.49 and 0.28, where the claim has one decision of each kind per sample, of magnitudes
  0.7 and 0.4.
\<close>

theorem leading_tone_decisions_counterexample:
  "fst (synth_premix 0 three_chords_rng) ! 11 - (0.8 * maj_t ! 11 + 0.15 * maj_t ! 1)
     = 3 * (0.7 * 0.7) \<and>
   fst (synth_premix 0 three_chords_rng) ! 5 - (0.8 * maj_t ! 5 + 0.15 * maj_t ! 7)
     = 3 * (0.7 * 0.4)"
proof -
  have u: "fst (random_uniform 0.8 1.2 three_chords_rng) = 0.8"
    by (simp only: three_chords_uniform fst_conv)
  have a: "fst (synth_premix 0 three_chords_rng) ! 11
      = 0.8 * maj_t ! 11 + 3 * (0.7 * 0.7) + 0.15 * maj_t ! 1"
    using synth_premix_nth[of 11 0 three_chords_rng]
    by (simp only: three_chords_sum u rotatedProfile_0 after_loop_three chord_zero_values)
  have b: "fst (synth_premix 0 three_chords_rng) ! 5
      = 0.8 * maj_t ! 5 + 3 * (0.7 * 0.4) + 0.15 * maj_t ! 7"
    using synth_premix_nth[of 5 0 three_chords_rng]
    by (simp only: three_chords_sum u rotatedProfile_0 after_loop_three chord_zero_values)
  show ?thesis by (simp only: a b) simp
qed

text \<open>
  Claim C3 as amended.  The leading-tone and the subdominant decisions are taken inside
  \<open>chord_vec\<close>, once each in every iteration of the chord loop, and the loop runs 1 to 3
  times in a sample.  In one iteration the chord array gets, beyond its triad, 0.7 at
  pitch class \<open>(tonic + 11) mod 12\<close> (major) or \<open>(tonic + 10) mod 12\<close> (minor) when a fresh
  \<^verbatim>\<open>random.random()\<close> is below 0.35, and 0.4 at pitch class \<open>(tonic + 5) mod 12\<close> when the
  next one is below 0.25.  The sample before clipping is the scaled profile, plus 0.7
  times the chord array of every iteration (so 0.49 and 0.28 for each decision that
  succeeds), plus the smear and the noise.
\<close>

theorem chord_decisions_per_iteration:
  "k < 12 \<Longrightarrow>
     1 \<le> n_chords g \<and> n_chords g \<le> 3 \<and>
     fst (chord_vec rt is_maj h) ! k
       = real (length (filter (\<lambda>s. nat ((rt + s) mod 12) = k) (triad_draw is_maj h)))
         + (if lead_draw is_maj h < 0.35 \<and> k = nat ((rt + (if is_maj then 11 else 10)) mod 12)
            then 0.7 else 0)
         + (if sub_draw is_maj h < 0.25 \<and> k = nat ((rt + 5) mod 12) then 0.4 else 0) \<and>
     fst (synth_premix cls g) ! k
       = fst (random_uniform 0.8 1.2 g) * rotatedProfile cls ! k
         + (\<Sum>i<n_chords g.
              0.7 * fst (chord_vec (cls div 2) (cls mod 2 = 0)
                           (chord_rng (cls div 2) (cls mod 2 = 0) (chords_rng g) i)) ! k)
         + after_loop cls g ! k"
  using n_chords_range[of g] chord_vec_nth[of k rt is_maj h] synth_premix_nth[of k cls g]
  by (simp only: simp_thms)

theorem chord_decisions_per_iteration_witness:
  "1 \<le> n_chords three_chords_rng \<and> n_chords three_chords_rng \<le> 3 \<and>
   fst (chord_vec 0 True zero_rng) ! 11
     = real (length (filter (\<lambda>s. nat ((0 + s) mod 12) = 11) (triad_draw True zero_rng)))
       + (if lead_draw True zero_rng < 0.35 \<and> 11 = nat ((0 + (if True then 11 else 10)) mod 12)
          then 0.7 else 0)
       + (if sub_draw True zero_rng < 0.25 \<and> 11 = nat ((0 + 5) mod 12) then 0.4 else 0) \<and>
   fst (synth_premix 0 three_chords_rng) ! 11
     = fst (random_uniform 0.8 1.2 three_chords_rng) * rotatedProfile 0 ! 11
       + (\<Sum>i<n_chords three_chords_rng.
            0.7 * fst (chord_vec (0 div 2) (0 mod 2 = (0::int))
                         (chord_rng (0 div 2) (0 mod 2 = (0::int)) (chords_rng three_chords_rng) i)) ! 11)
       + after_loop 0 three_chords_rng ! 11"
  by (rule chord_decisions_per_iteration) simp

section \<open>The generated samples and labels\<close>

lemma class_loop_result:
  "snd (fst (class_loop n c (xs, ys) g)) = ys @ replicate n c \<and>
   length (fst (fst (class_loop n c (xs, ys) g))) = length xs + n"
proof (induction n arbitrary: xs ys g)
  case 0
  then show ?case by simp
next
  case (Suc n)
  show ?case
    using Suc.IH[where ys = "ys @ [c]" and xs = "xs @ [fst (synth_sample c g)]"
        and g = "snd (synth_sample c g)"]
    by (simp add: split_beta replicate_app_Cons_same)
qed

lemma classes_loop_result:
  "snd (fst (classes_loop cs n (xs, ys) g)) = ys @ concat (map (replicate n) cs) \<and>
   length (fst (fst (classes_loop cs n (xs, ys) g))) = length xs + n * length cs"
proof (induction cs arbitrary: xs ys g)
  case Nil
  then show ?case by simp
next
  case (Cons c cs)
  obtain xs' ys' g' where r: "class_loop n c (xs, ys) g = ((xs', ys'), g')"
    by (metis prod.collapse)
  have "ys' = ys @ replicate n c" "length xs' = length xs + n"
    using class_loop_result[of n c xs ys g] r by simp_all
  then show ?case using Cons.IH[where ys = ys' and xs = xs' and g = g'] r by simp
qed

lemma gen_samples_result:
  "gen_ys N g = concat (map (replicate (nat N)) (map int [0..<24])) \<and>
   length (gen_xs N g) = 24 * nat N"
  using classes_loop_result[of "map int [0..<24]" "nat N" "[]" "[]" g]
  by (simp add: gen_ys_def gen_xs_def gen_samples_def)

lemma count_list_replicate_self: "count_list (replicate n c) c = n"
  by (induction n) simp_all

lemma count_list_concat_replicate:
  "count_list (concat (map (replicate n) cs)) c = n * count_list cs c"
  by (induction cs) (simp_all add: count_list_replicate_self)

lemma count_list_upt_int: "0 \<le> c \<Longrightarrow> c < int n \<Longrightarrow> count_list (map int [0..<n]) c = 1"
proof (induction n)
  case 0
  then show ?case by simp
next
  case (Suc n)
  show ?case
  proof (cases "c = int n")
    case True
    then have "c \<notin> set (map int [0..<n])" by auto
    then show ?thesis using True by simp
  next
    case False
    then have "c < int n" using Suc.prems by simp
    then show ?thesis using Suc.IH Suc.prems(1) False by simp
  qed
qed

section \<open>The shuffle and the split\<close>

lemma shuffle_loop_mset:
  "i < length xs \<Longrightarrow> mset (fst (shuffle_loop i xs g)) = mset xs"
proof (induction i arbitrary: xs g)
  case 0
  then show ?case by simp
next
  case (Suc i)
  define k where "k = fst (np_draw g)"
  define j where "j = k mod Suc (Suc i)"
  define xs' where "xs' = xs[Suc i := xs ! j, j := xs ! Suc i]"
  have "j < Suc (Suc i)" unfolding j_def by (rule mod_less_divisor) simp
  then have j: "j < length xs" using Suc.prems by simp
  have m: "mset xs' = mset xs" unfolding xs'_def using j Suc.prems by (rule mset_swap)
  have "i < length xs'" using Suc.prems by (simp add: xs'_def)
  then have h: "mset (fst (shuffle_loop i xs' (snd (np_draw g)))) = mset xs'" by (rule Suc.IH)
  have e: "fst (shuffle_loop (Suc i) xs g) = fst (shuffle_loop i xs' (snd (np_draw g)))"
    by (simp add: split_beta Let_def xs'_def j_def k_def)
  show ?case by (simp only: e h m)
qed

lemma np_shuffle_mset: "mset (fst (np_shuffle xs g)) = mset xs"
proof (cases "xs = []")
  case True
  then show ?thesis by (simp add: np_shuffle_def)
next
  case False
  then have "length xs - 1 < length xs" by simp
  then show ?thesis unfolding np_shuffle_def by (rule shuffle_loop_mset)
qed

lemma shuffled_idx_mset: "mset (shuffled_idx N g) = mset [0..<length (gen_xs N g)]"
  by (simp only: shuffled_idx_def gen_xs_def split_beta np_shuffle_mset)

lemma shuffled_idx_props:
  "length (shuffled_idx N g) = length (gen_xs N g) \<and> distinct (shuffled_idx N g) \<and>
   set (shuffled_idx N g) = {0..<length (gen_xs N g)}"
proof -
  note m = shuffled_idx_mset[of N g]
  have "length (shuffled_idx N g) = length [0..<length (gen_xs N g)]"
    using m by (rule mset_eq_length)
  moreover have "distinct (shuffled_idx N g)"
    using m distinct_upt by (metis mset_eq_imp_distinct_iff)
  moreover have "set (shuffled_idx N g) = set [0..<length (gen_xs N g)]"
    using m by (rule mset_eq_setD)
  ultimately show ?thesis by simp
qed

lemma split_point_le: "split_point m \<le> m"
proof -
  have "\<lfloor>0.9 * real m\<rfloor> \<le> \<lfloor>real m\<rfloor>" by (rule floor_mono) simp
  then show ?thesis by (simp add: split_point_def)
qed

lemma make_dataset_parts:
  "train_x N g = map (\<lambda>i. gen_xs N g ! i) (take (split_point (length (gen_xs N g))) (shuffled_idx N g)) \<and>
   val_x N g = map (\<lambda>i. gen_xs N g ! i) (drop (split_point (length (gen_xs N g))) (shuffled_idx N g)) \<and>
   train_y N g = map (\<lambda>i. to_categorical (gen_ys N g) 24 ! i)
                   (take (split_point (length (gen_xs N g))) (shuffled_idx N g)) \<and>
   val_y N g = map (\<lambda>i. to_categorical (gen_ys N g) 24 ! i)
                   (drop (split_point (length (gen_xs N g))) (shuffled_idx N g))"
proof -
  have l: "length (fst (np_shuffle [0..<length (gen_xs N g)] (snd (gen_samples N g)))) = length (gen_xs N g)"
    using shuffled_idx_props[of N g] by (simp add: shuffled_idx_def gen_xs_def split_beta)
  show ?thesis
    using l
    by (simp add: train_x_def val_x_def train_y_def val_y_def make_dataset_def split_beta
        Let_def shuffled_idx_def gen_xs_def gen_ys_def take_map drop_map)
qed

section \<open>The dataset\<close>

lemma length_concat_replicate: "length (concat (map (replicate n) cs)) = n * length cs"
  by (induction cs) simp_all

lemma gen_ys_eq: "gen_ys N g = concat (map (replicate (nat N)) (map int [0..<24]))"
  using gen_samples_result[of N g] by (rule conjunct1)

lemma length_gen_xs: "length (gen_xs N g) = 24 * nat N"
  using gen_samples_result[of N g] by (rule conjunct2)

lemma length_gen_ys: "length (gen_ys N g) = 24 * nat N"
  by (simp only: gen_ys_eq length_concat_replicate length_map length_upt) simp

lemma count_gen_ys: "0 \<le> c \<Longrightarrow> c < 24 \<Longrightarrow> count_list (gen_ys N g) c = nat N"
  using count_list_upt_int[of c 24]
  by (simp only: gen_ys_eq count_list_concat_replicate)

lemma length_to_categorical: "length (to_categorical ys k) = length ys"
  by (simp add: to_categorical_def)

lemma zip_map_same: "zip (map f l) (map h l) = map (\<lambda>i. (f i, h i)) l"
  by (induction l) simp_all

lemma map_nth_pair:
  "length xs = length ys \<Longrightarrow> map (\<lambda>i. (xs ! i, ys ! i)) [0..<length xs] = zip xs ys"
  by (rule nth_equalityI) simp_all

lemma dataset_is_permutation:
  "mset (zip (train_x N g) (train_y N g) @ zip (val_x N g) (val_y N g))
     = mset (zip (gen_xs N g) (to_categorical (gen_ys N g) 24))"
proof -
  define n where "n = split_point (length (gen_xs N g))"
  define idx where "idx = shuffled_idx N g"
  define h where "h = (\<lambda>i. (gen_xs N g ! i, to_categorical (gen_ys N g) 24 ! i))"
  have p: "train_x N g = map (\<lambda>i. gen_xs N g ! i) (take n idx)"
    "val_x N g = map (\<lambda>i. gen_xs N g ! i) (drop n idx)"
    "train_y N g = map (\<lambda>i. to_categorical (gen_ys N g) 24 ! i) (take n idx)"
    "val_y N g = map (\<lambda>i. to_categorical (gen_ys N g) 24 ! i) (drop n idx)"
    using make_dataset_parts[of N g] by (simp_all add: n_def idx_def)
  have "zip (train_x N g) (train_y N g) @ zip (val_x N g) (val_y N g)
      = map h (take n idx) @ map h (drop n idx)"
    by (simp only: p zip_map_same h_def)
  also have "\<dots> = map h idx" by (simp only: map_append[symmetric] append_take_drop_id)
  finally have "mset (zip (train_x N g) (train_y N g) @ zip (val_x N g) (val_y N g))
      = image_mset h (mset idx)" by simp
  also have "\<dots> = image_mset h (mset [0..<length (gen_xs N g)])"
    by (simp only: idx_def shuffled_idx_mset)
  also have "\<dots> = mset (map h [0..<length (gen_xs N g)])" by (simp only: mset_map)
  also have "map h [0..<length (gen_xs N g)] = zip (gen_xs N g) (to_categorical (gen_ys N g) 24)"
    unfolding h_def
    by (rule map_nth_pair) (simp add: length_to_categorical length_gen_ys length_gen_xs)
  finally show ?thesis .
qed

lemma dataset_lengths:
  "length (train_x N g) = split_point (24 * nat N) \<and>
   length (train_x N g) + length (val_x N g) = 24 * nat N \<and>
   length (train_y N g) = length (train_x N g) \<and>
   length (val_y N g) = length (val_x N g)"
  using make_dataset_parts[of N g] shuffled_idx_props[of N g] split_point_le[of "24 * nat N"]
  by (simp add: length_gen_xs)

text \<open>
  Claim C6.  For every number \<open>N \<ge> 0\<close> of samples per class, \<open>make_dataset\<close> generates
  \<open>24 * N\<close> samples and as many labels, with exactly \<open>N\<close> labels of each key class from 0 to
  23 before the shuffle; the training part has \<open>\<lfloor>0.9 * (24 * N)\<rfloor>\<close> samples and the
  validation part the remainder; the shuffled index array is a permutation of
  \<open>0, ..., 24 * N - 1\<close>, the training part reads the generated samples (and their one-hot
  labels) at its first \<open>\<lfloor>0.9 * (24 * N)\<rfloor>\<close> indices and the validation part at the
  others, so the two parts take disjoint positions of the generated sequence; and the
  labelled samples of the two parts together are a permutation of the generated ones.
\<close>

theorem make_dataset_counts_and_split:
  "0 \<le> N \<Longrightarrow>
     int (length (gen_xs N g)) = 24 * N \<and>
     int (length (gen_ys N g)) = 24 * N \<and>
     (\<forall>c. 0 \<le> c \<and> c < 24 \<longrightarrow> int (count_list (gen_ys N g) c) = N) \<and>
     int (length (train_x N g)) = \<lfloor>0.9 * real_of_int (24 * N)\<rfloor> \<and>
     length (train_x N g) + length (val_x N g) = length (gen_xs N g) \<and>
     length (train_y N g) = length (train_x N g) \<and>
     length (val_y N g) = length (val_x N g) \<and>
     mset (shuffled_idx N g) = mset [0..<length (gen_xs N g)] \<and>
     train_x N g = map (\<lambda>i. gen_xs N g ! i) (take (length (train_x N g)) (shuffled_idx N g)) \<and>
     val_x N g = map (\<lambda>i. gen_xs N g ! i) (drop (length (train_x N g)) (shuffled_idx N g)) \<and>
     train_y N g = map (\<lambda>i. to_categorical (gen_ys N g) 24 ! i)
                     (take (length (train_x N g)) (shuffled_idx N g)) \<and>
     val_y N g = map (\<lambda>i. to_categorical (gen_ys N g) 24 ! i)
                     (drop (length (train_x N g)) (shuffled_idx N g)) \<and>
     set (take (length (train_x N g)) (shuffled_idx N g))
       \<inter> set (drop (length (train_x N g)) (shuffled_idx N g)) = {} \<and>
     mset (zip (train_x N g) (train_y N g) @ zip (val_x N g) (val_y N g))
       = mset (zip (gen_xs N g) (to_categorical (gen_ys N g) 24))"
proof -
  assume N: "0 \<le> N"
  note L = dataset_lengths[of N g]
  note L1 = L[THEN conjunct1]
  note L2 = L[THEN conjunct2, THEN conjunct1]
  note L3 = L[THEN conjunct2, THEN conjunct2, THEN conjunct1]
  note L4 = L[THEN conjunct2, THEN conjunct2, THEN conjunct2]
  note P = make_dataset_parts[of N g]
  have T: "length (gen_xs N g) = 24 * nat N" by (rule length_gen_xs)
  have n: "split_point (length (gen_xs N g)) = length (train_x N g)"
    using L by (simp add: T)
  have f1: "int (length (gen_xs N g)) = 24 * N" using N by (simp add: T)
  have f2: "int (length (gen_ys N g)) = 24 * N" using N by (simp add: length_gen_ys)
  have f3: "\<forall>c. 0 \<le> c \<and> c < 24 \<longrightarrow> int (count_list (gen_ys N g) c) = N"
    using N by (simp add: count_gen_ys)
  have "real_of_int (24 * N) = real (24 * nat N)" using N by simp
  moreover have "int (split_point (24 * nat N)) = \<lfloor>0.9 * real (24 * nat N)\<rfloor>"
    unfolding split_point_def by (rule nat_0_le) (simp add: zero_le_floor)
  ultimately have f4: "int (length (train_x N g)) = \<lfloor>0.9 * real_of_int (24 * N)\<rfloor>"
    by (simp only: L1)
  have f5: "length (train_x N g) + length (val_x N g) = length (gen_xs N g)"
    by (simp only: T L2)
  note f6 = L3
  note f7 = L4
  have f8: "mset (shuffled_idx N g) = mset [0..<length (gen_xs N g)]"
    by (rule shuffled_idx_mset)
  have f9: "train_x N g
      = map (\<lambda>i. gen_xs N g ! i) (take (length (train_x N g)) (shuffled_idx N g))"
    using P unfolding n by (rule conjunct1)
  have f10: "val_x N g
      = map (\<lambda>i. gen_xs N g ! i) (drop (length (train_x N g)) (shuffled_idx N g))"
    using P unfolding n by (rule conjunct2[THEN conjunct1])
  have f11: "train_y N g = map (\<lambda>i. to_categorical (gen_ys N g) 24 ! i)
      (take (length (train_x N g)) (shuffled_idx N g))"
    using P unfolding n by (rule conjunct2[THEN conjunct2, THEN conjunct1])
  have f12: "val_y N g = map (\<lambda>i. to_categorical (gen_ys N g) 24 ! i)
      (drop (length (train_x N g)) (shuffled_idx N g))"
    using P unfolding n by (rule conjunct2[THEN conjunct2, THEN conjunct2])
  have "distinct (take (length (train_x N g)) (shuffled_idx N g)
      @ drop (length (train_x N g)) (shuffled_idx N g))"
    using shuffled_idx_props[of N g] by (simp only: append_take_drop_id)
  then have f13: "set (take (length (train_x N g)) (shuffled_idx N g))
      \<inter> set (drop (length (train_x N g)) (shuffled_idx N g)) = {}"
    by (simp only: distinct_append)
  note f14 = dataset_is_permutation[of N g]
  show ?thesis
    by (intro conjI) (fact f1 f2 f3 f4 f5 f6 f7 f8 f9 f10 f11 f12 f13 f14)+
qed

theorem make_dataset_counts_and_split_witness:
  "length (gen_xs 1 zero_rng) = 24 \<and>
   count_list (gen_ys 1 zero_rng) 7 = 1 \<and>
   length (train_x 1 zero_rng) = 21 \<and>
   length (val_x 1 zero_rng) = 3 \<and>
   set (take 21 (shuffled_idx 1 zero_rng)) \<inter> set (drop 21 (shuffled_idx 1 zero_rng)) = {} \<and>
   mset (zip (train_x 1 zero_rng) (train_y 1 zero_rng) @ zip (val_x 1 zero_rng) (val_y 1 zero_rng))
     = mset (zip (gen_xs 1 zero_rng) (to_categorical (gen_ys 1 zero_rng) 24))"
proof -
  have h: "(0::int) \<le> 1" by simp
  note t = make_dataset_counts_and_split[OF h, of zero_rng]
  from t have "int (length (gen_xs 1 zero_rng)) = 24 * 1" by (rule conjunct1)
  then have a: "length (gen_xs 1 zero_rng) = 24" by simp
  from t have "\<forall>c. 0 \<le> c \<and> c < 24 \<longrightarrow> int (count_list (gen_ys 1 zero_rng) c) = 1"
    by (rule conjunct2[THEN conjunct2, THEN conjunct1])
  then have b: "count_list (gen_ys 1 zero_rng) 7 = 1" by simp
  from t have "int (length (train_x 1 zero_rng)) = \<lfloor>0.9 * real_of_int (24 * 1)\<rfloor>"
    by (rule conjunct2[THEN conjunct2, THEN conjunct2, THEN conjunct1])
  moreover have "\<lfloor>0.9 * real_of_int (24 * 1)\<rfloor> = (21::int)" by simp
  ultimately have c: "length (train_x 1 zero_rng) = 21" by simp
  from t have "length (train_x 1 zero_rng) + length (val_x 1 zero_rng) = length (gen_xs 1 zero_rng)"
    by blast
  then have d: "length (val_x 1 zero_rng) = 3" using a c by simp
  from t have "set (take (length (train_x 1 zero_rng)) (shuffled_idx 1 zero_rng))
      \<inter> set (drop (length (train_x 1 zero_rng)) (shuffled_idx 1 zero_rng)) = {}" by blast
  then have e: "set (take 21 (shuffled_idx 1 zero_rng)) \<inter> set (drop 21 (shuffled_idx 1 zero_rng)) = {}"
    by (simp only: c)
  from t have f: "mset (zip (train_x 1 zero_rng) (train_y 1 zero_rng) @ zip (val_x 1 zero_rng) (val_y 1 zero_rng))
     = mset (zip (gen_xs 1 zero_rng) (to_categorical (gen_ys 1 zero_rng) 24))" by blast
  show ?thesis by (intro conjI) (fact a b c d e f)+
qed

end
